theory Spec2Isabelle
  imports Complex_Main "HOL-Library.Word" "HOL-Library.Signed_Division" "HOL-Library.Sublist"
begin

section \<open>Integer arithmetic of the C sources\<close>

text \<open>
  A C \<open>int\<close> has 32 bits. Its values are modelled as integers in the range
  \<open>- 2 ^ 31 .. 2 ^ 31 - 1\<close>, with C's operators: \<open>/\<close> truncates towards zero
  (\<open>sdiv\<close>), \<open>%\<close> is the matching remainder (\<open>smod\<close>). HOL's own \<open>div\<close> rounds
  towards minus infinity and is used only to state what a floor is.
\<close>

definition int32_range :: "int \<Rightarrow> bool" where
  "int32_range k = (- (2 ^ 31) \<le> k \<and> k < 2 ^ 31)"

text \<open>
  The result of an addition or a subtraction that leaves the range comes back into it
  modulo \<open>2 ^ 32\<close> (two's complement).
\<close>

definition wrap_int32 :: "int \<Rightarrow> int" where
  "wrap_int32 k = (k + 2 ^ 31) mod 2 ^ 32 - 2 ^ 31"

text \<open>
  \<open>floor_divide\<close> is defined twice in the repository, with the same text: in
  \<open>thread.c\<close> (lines 171-178) and in \<open>error_diffusion.c\<close> (lines 142-149). The
  expression \<open>numerator - denominator + 1\<close> is a subtraction followed by an addition,
  each on \<open>int\<close>. Every call in the repository passes the denominator 16, for which the
  division itself cannot leave the range.
\<close>

definition floor_divide :: "int \<Rightarrow> int \<Rightarrow> int" where
  "floor_divide numerator denominator =
     (if numerator \<ge> 0 then numerator sdiv denominator
      else wrap_int32 (wrap_int32 (numerator - denominator) + 1) sdiv denominator)"

definition ed_floor_divide :: "int \<Rightarrow> int \<Rightarrow> int" where
  "ed_floor_divide numerator denominator =
     (if numerator \<ge> 0 then numerator sdiv denominator
      else wrap_int32 (wrap_int32 (numerator - denominator) + 1) sdiv denominator)"

section \<open>Grids\<close>

text \<open>
  A coordinate is \<open>(y, x)\<close>: row first, as in \<open>work[y][x]\<close>. The C code computes
  \<open>x = diag - y\<close>, \<open>x - 1\<close> and \<open>y - 1\<close> on \<open>int\<close>s before it tests them, so
  coordinates are integers. \<open>unsigned char\<close> cells are bytes; \<open>int\<close> cells are integers.
  The three arrays of one call are distinct objects: \<open>input\<close> and \<open>output\<close> are
  allocated separately by \<open>main\<close>, \<open>work\<close> is allocated by the engine.
\<close>

type_synonym coord = "int \<times> int"
type_synonym pixels = "coord \<Rightarrow> 8 word"
type_synonym accum = "coord \<Rightarrow> int"

record grids =
  "input" :: pixels
  work :: accum
  "output" :: pixels

definition in_grid :: "int \<Rightarrow> int \<Rightarrow> coord \<Rightarrow> bool" where
  "in_grid width height c = (case c of (y, x) \<Rightarrow> 0 \<le> y \<and> y < height \<and> 0 \<le> x \<and> x < width)"

text \<open>
  The loop nest \<open>for (y = 0; y < height; y++) for (x = 0; x < width; x++)\<close>: the
  coordinates in the order the body meets them.
\<close>

definition raster :: "int \<Rightarrow> int \<Rightarrow> coord list" where
  "raster width height = concat (map (\<lambda>y. map (\<lambda>x. (y, x)) [0..width - 1]) [0..height - 1])"

text \<open>
  The working copy: \<open>work[y][x] = input[y][x]\<close> for every cell of the grid
  (\<open>thread.c\<close> lines 274-280 and 351-357, \<open>error_diffusion.c\<close> lines 153-159).
  Cells outside the grid do not exist in the program and no guard lets the code reach one;
  the model gives them 0.
\<close>

definition seed_work :: "pixels \<Rightarrow> int \<Rightarrow> int \<Rightarrow> accum" where
  "seed_work inp width height =
     foldl (\<lambda>w c. w(c := uint (inp c))) (\<lambda>c. 0) (raster width height)"

text \<open>\<open>work[..][..] += v\<close>\<close>

definition add_work :: "coord \<Rightarrow> int \<Rightarrow> grids \<Rightarrow> grids" where
  "add_work t v s = s\<lparr>work := (work s)(t := work s t + v)\<rparr>"

section \<open>The serial engine of \<open>thread.c\<close>\<close>

text \<open>
  Lines 361-364 of \<open>dither_image_st\<close>: read the accumulator, choose the output level,
  store it as an \<open>unsigned char\<close>, compute the error.
\<close>

definition st_quantize :: "grids \<Rightarrow> coord \<Rightarrow> grids \<times> int" where
  "st_quantize s c =
     (let old_pixel = work s c;
          new_pixel = (if old_pixel > 128 then 255 else 0);
          s' = s\<lparr>output := (output s)(c := word_of_int new_pixel)\<rparr>;
          err = old_pixel - new_pixel
      in (s', err))"

text \<open>Lines 366-374: the four guarded deposits.\<close>

definition st_propagate :: "int \<Rightarrow> int \<Rightarrow> coord \<Rightarrow> int \<Rightarrow> grids \<Rightarrow> grids" where
  "st_propagate width height c err s =
     (case c of (y, x) \<Rightarrow>
        let s1 = (if x + 1 < width
                  then add_work (y, x + 1) (floor_divide (err * 7) 16) s else s)
        in if y + 1 < height then
             let s2 = (if x - 1 \<ge> 0
                       then add_work (y + 1, x - 1) (floor_divide (err * 3) 16) s1 else s1);
                 s3 = add_work (y + 1, x) (floor_divide (err * 5) 16) s2
             in (if x + 1 < width
                 then add_work (y + 1, x + 1) (floor_divide (err * 1) 16) s3 else s3)
           else s1)"

definition st_pixel :: "int \<Rightarrow> int \<Rightarrow> grids \<Rightarrow> coord \<Rightarrow> grids" where
  "st_pixel width height s c =
     (case st_quantize s c of (s', err) \<Rightarrow> st_propagate width height c err s')"

definition st_run :: "pixels \<Rightarrow> pixels \<Rightarrow> int \<Rightarrow> int \<Rightarrow> grids" where
  "st_run inp out width height =
     foldl (st_pixel width height)
       \<lparr>input = inp, work = seed_work inp width height, output = out\<rparr>
       (raster width height)"

definition dither_image_st :: "pixels \<Rightarrow> pixels \<Rightarrow> int \<Rightarrow> int \<Rightarrow> pixels" where
  "dither_image_st inp out width height = output (st_run inp out width height)"

section \<open>The serial engine of \<open>error_diffusion.c\<close>\<close>

text \<open>\<open>dither_image\<close>, lines 151-187, with that file's own \<open>floor_divide\<close>.\<close>

definition ed_quantize :: "grids \<Rightarrow> coord \<Rightarrow> grids \<times> int" where
  "ed_quantize s c =
     (let old_pixel = work s c;
          new_pixel = (if old_pixel > 128 then 255 else 0);
          s' = s\<lparr>output := (output s)(c := word_of_int new_pixel)\<rparr>;
          err = old_pixel - new_pixel
      in (s', err))"

definition ed_propagate :: "int \<Rightarrow> int \<Rightarrow> coord \<Rightarrow> int \<Rightarrow> grids \<Rightarrow> grids" where
  "ed_propagate width height c err s =
     (case c of (y, x) \<Rightarrow>
        let s1 = (if x + 1 < width
                  then add_work (y, x + 1) (ed_floor_divide (err * 7) 16) s else s)
        in if y + 1 < height then
             let s2 = (if x - 1 \<ge> 0
                       then add_work (y + 1, x - 1) (ed_floor_divide (err * 3) 16) s1 else s1);
                 s3 = add_work (y + 1, x) (ed_floor_divide (err * 5) 16) s2
             in (if x + 1 < width
                 then add_work (y + 1, x + 1) (ed_floor_divide (err * 1) 16) s3 else s3)
           else s1)"

definition ed_pixel :: "int \<Rightarrow> int \<Rightarrow> grids \<Rightarrow> coord \<Rightarrow> grids" where
  "ed_pixel width height s c =
     (case ed_quantize s c of (s', err) \<Rightarrow> ed_propagate width height c err s')"

definition ed_run :: "pixels \<Rightarrow> pixels \<Rightarrow> int \<Rightarrow> int \<Rightarrow> grids" where
  "ed_run inp out width height =
     foldl (ed_pixel width height)
       \<lparr>input = inp, work = seed_work inp width height, output = out\<rparr>
       (raster width height)"

definition dither_image :: "pixels \<Rightarrow> pixels \<Rightarrow> int \<Rightarrow> int \<Rightarrow> pixels" where
  "dither_image inp out width height = output (ed_run inp out width height)"

section \<open>The wavefront engine of \<open>thread.c\<close>\<close>

subsection \<open>What one worker executes\<close>

text \<open>
  The control flow of \<open>process_wavefront\<close> depends on the thread's parameters only,
  except for the wait loops. A worker's run is therefore a fixed sequence of operations on
  the shared data; \<open>CondWait c\<close> stands for the loop
  \<open>while (!processed[c]) pthread_cond_wait(cond[c], mutex[c])\<close>, \<open>ReadWork c\<close> for
  line 222, \<open>Quantize c\<close> for lines 223-225, \<open>AddWork t w\<close> for
  \<open>work[t] += floor_divide(err * w, 16)\<close>.
\<close>

datatype op =
    Lock coord
  | Unlock coord
  | CondWait coord
  | ReadWork coord
  | Quantize coord
  | AddWork coord int
  | SetProcessed coord
  | Broadcast coord

definition await_ops :: "coord \<Rightarrow> op list" where
  "await_ops t = [Lock t, CondWait t, Unlock t]"

definition deposit_ops :: "coord \<Rightarrow> int \<Rightarrow> op list" where
  "deposit_ops t w = [Lock t, AddWork t w, Unlock t]"

definition signal_ops :: "coord \<Rightarrow> op list" where
  "signal_ops c = [Lock c, SetProcessed c, Broadcast c, Unlock c]"

text \<open>Lines 200-263: the body of the inner loop at a coordinate of the grid.\<close>

definition pixel_ops :: "int \<Rightarrow> int \<Rightarrow> coord \<Rightarrow> op list" where
  "pixel_ops width height c =
     (case c of (y, x) \<Rightarrow>
        (if y > 0 \<and> x + 1 < width then await_ops (y - 1, x + 1) else []) @
        (if x > 0 then await_ops (y, x - 1) else []) @
        [ReadWork (y, x), Quantize (y, x)] @
        (if x + 1 < width then deposit_ops (y, x + 1) 7 else []) @
        (if y + 1 < height then
           (if x - 1 \<ge> 0 then deposit_ops (y + 1, x - 1) 3 else []) @
           deposit_ops (y + 1, x) 5 @
           (if x + 1 < width then deposit_ops (y + 1, x + 1) 1 else [])
         else []) @
        signal_ops (y, x))"

text \<open>Lines 196-265: the inner loop over \<open>y\<close> on one diagonal.\<close>

definition diagonal_ops :: "int \<Rightarrow> int \<Rightarrow> int \<Rightarrow> op list" where
  "diagonal_ops width height diag =
     concat (map (\<lambda>y. let x = diag - y
                       in if x \<ge> 0 \<and> x < width then pixel_ops width height (y, x) else [])
                 [0..height - 1])"

text \<open>Lines 189-266: the outer loop, with the test \<open>diag % num_threads != thread_id\<close>.\<close>

definition process_wavefront :: "int \<Rightarrow> int \<Rightarrow> int \<Rightarrow> int \<Rightarrow> op list" where
  "process_wavefront thread_id num_threads width height =
     concat (map (\<lambda>diag. if diag smod num_threads \<noteq> thread_id then []
                          else diagonal_ops width height diag)
                 [0..width + height - 2])"

subsection \<open>The shared state and the interleaving\<close>

text \<open>
  A thread owns its remaining operations and the locals \<open>old_pixel\<close> and \<open>err\<close>.
  The threads share the grids, the \<open>processed\<close> flags and the mutexes; a mutex is free
  (\<open>None\<close>) or held by a thread.
\<close>

record thread =
  ops :: "op list"
  old_pixel :: int
  err :: int

record mt_state = grids +
  pixel_processed :: "coord \<Rightarrow> int"
  pixel_mutexes :: "coord \<Rightarrow> nat option"
  threads :: "thread list"

text \<open>
  One operation of thread \<open>i\<close>, whose thread record is \<open>t\<close> and whose remaining
  operations after this one are \<open>rest\<close>. \<open>None\<close>: the thread cannot take the step now
  (the mutex is held by another thread), or the step is not defined (unlocking or waiting
  on a mutex the thread does not hold). A wait whose flag is not yet set releases the
  mutex, and the thread has to take the mutex again before it tests the flag again, as
  \<open>pthread_cond_wait\<close> does; a wake-up may come at any time.
\<close>

fun exec_op :: "nat \<Rightarrow> thread \<Rightarrow> op \<Rightarrow> op list \<Rightarrow> mt_state \<Rightarrow> mt_state option" where
  "exec_op i t (Lock c) rest st =
     (if pixel_mutexes st c = None
      then Some (st\<lparr>pixel_mutexes := (pixel_mutexes st)(c := Some i),
                    threads := (threads st)[i := t\<lparr>ops := rest\<rparr>]\<rparr>)
      else None)"
| "exec_op i t (Unlock c) rest st =
     (if pixel_mutexes st c = Some i
      then Some (st\<lparr>pixel_mutexes := (pixel_mutexes st)(c := None),
                    threads := (threads st)[i := t\<lparr>ops := rest\<rparr>]\<rparr>)
      else None)"
| "exec_op i t (CondWait c) rest st =
     (if pixel_mutexes st c = Some i
      then (if pixel_processed st c \<noteq> 0
            then Some (st\<lparr>threads := (threads st)[i := t\<lparr>ops := rest\<rparr>]\<rparr>)
            else Some (st\<lparr>pixel_mutexes := (pixel_mutexes st)(c := None),
                          threads := (threads st)[i := t\<lparr>ops := Lock c # CondWait c # rest\<rparr>]\<rparr>))
      else None)"
| "exec_op i t (ReadWork c) rest st =
     Some (st\<lparr>threads := (threads st)[i := t\<lparr>ops := rest, old_pixel := work st c\<rparr>]\<rparr>)"
| "exec_op i t (Quantize c) rest st =
     (let new_pixel = (if old_pixel t > 128 then 255 else 0)
      in Some (st\<lparr>output := (output st)(c := word_of_int new_pixel),
                  threads := (threads st)[i := t\<lparr>ops := rest, err := old_pixel t - new_pixel\<rparr>]\<rparr>))"
| "exec_op i t (AddWork c w) rest st =
     Some (st\<lparr>work := (work st)(c := work st c + floor_divide (err t * w) 16),
              threads := (threads st)[i := t\<lparr>ops := rest\<rparr>]\<rparr>)"
| "exec_op i t (SetProcessed c) rest st =
     Some (st\<lparr>pixel_processed := (pixel_processed st)(c := 1),
              threads := (threads st)[i := t\<lparr>ops := rest\<rparr>]\<rparr>)"
| "exec_op i t (Broadcast c) rest st =
     Some (st\<lparr>threads := (threads st)[i := t\<lparr>ops := rest\<rparr>]\<rparr>)"

definition step :: "nat \<Rightarrow> mt_state \<Rightarrow> mt_state option" where
  "step i st =
     (if i < length (threads st)
      then (case ops (threads st ! i) of
              [] \<Rightarrow> None
            | a # rest \<Rightarrow> exec_op i (threads st ! i) a rest st)
      else None)"

text \<open>
  An execution is the list of the thread numbers that take the successive steps: the
  scheduler's choices. \<open>run\<close> is \<open>None\<close> when the list asks for a step that cannot be
  taken.
\<close>

fun run :: "nat list \<Rightarrow> mt_state \<Rightarrow> mt_state option" where
  "run [] st = Some st"
| "run (i # sched) st = (case step i st of None \<Rightarrow> None | Some st' \<Rightarrow> run sched st')"

definition finished :: "mt_state \<Rightarrow> bool" where
  "finished st = list_all (\<lambda>t. ops t = []) (threads st)"

text \<open>
  \<open>dither_image_mt\<close>, lines 272-347: the working copy, the flags at 0, the mutexes
  free, one thread per \<open>i\<close> in \<open>0 .. num_threads - 1\<close> with \<open>thread_id = i\<close>. The locals
  of a thread start at 0 (the C locals start unset and are written before they are read).
\<close>

definition mt_init :: "pixels \<Rightarrow> pixels \<Rightarrow> int \<Rightarrow> int \<Rightarrow> int \<Rightarrow> mt_state" where
  "mt_init inp out width height num_threads =
     \<lparr>input = inp, work = seed_work inp width height, output = out,
      pixel_processed = (\<lambda>c. 0), pixel_mutexes = (\<lambda>c. None),
      threads = map (\<lambda>i. \<lparr>ops = process_wavefront i num_threads width height,
                           old_pixel = 0, err = 0\<rparr>)
                    [0..num_threads - 1]\<rparr>"

text \<open>
  The call returns after \<open>pthread_join\<close> of every thread: the result of an execution is
  the output grid once every thread has finished, and \<open>None\<close> for a list of choices that
  is not a complete execution.
\<close>

definition dither_image_mt ::
  "pixels \<Rightarrow> pixels \<Rightarrow> int \<Rightarrow> int \<Rightarrow> int \<Rightarrow> nat list \<Rightarrow> pixels option" where
  "dither_image_mt inp out width height num_threads sched =
     (case run sched (mt_init inp out width height num_threads) of
        None \<Rightarrow> None
      | Some st \<Rightarrow> if finished st then Some (output st) else None)"

subsection \<open>Mutexes held along a worker's run\<close>

text \<open>
  The mutexes a thread holds before each of its operations, from the \<open>Lock\<close> and
  \<open>Unlock\<close> operations it has executed so far. A \<open>CondWait\<close> returns with the mutex
  held again.
\<close>

fun held_after :: "coord list \<Rightarrow> op list \<Rightarrow> coord list" where
  "held_after held [] = held"
| "held_after held (Lock c # rest) = held_after (c # held) rest"
| "held_after held (Unlock c # rest) = held_after (remove1 c held) rest"
| "held_after held (a # rest) = held_after held rest"

fun lock_trace :: "coord list \<Rightarrow> op list \<Rightarrow> (op \<times> coord list) list" where
  "lock_trace held [] = []"
| "lock_trace held (Lock c # rest) = (Lock c, held) # lock_trace (c # held) rest"
| "lock_trace held (Unlock c # rest) = (Unlock c, held) # lock_trace (remove1 c held) rest"
| "lock_trace held (a # rest) = (a, held) # lock_trace held rest"

text \<open>
  Every access to an accumulator under that coordinate's mutex: the read of line 222 and
  the deposits.
\<close>

definition access_locked :: "op \<times> coord list \<Rightarrow> bool" where
  "access_locked p =
     (case p of (a, held) \<Rightarrow>
        (case a of ReadWork c \<Rightarrow> c \<in> set held
                 | AddWork c w \<Rightarrow> c \<in> set held
                 | _ \<Rightarrow> True))"

text \<open>
  What the code does: a deposit, a wait and the setting of the flag hold exactly the
  mutex of their coordinate; the read of the accumulator and the write of the output
  cell hold no mutex.
\<close>

definition lock_discipline :: "op \<times> coord list \<Rightarrow> bool" where
  "lock_discipline p =
     (case p of (a, held) \<Rightarrow>
        (case a of ReadWork c \<Rightarrow> held = []
                 | Quantize c \<Rightarrow> held = []
                 | AddWork c w \<Rightarrow> held = [c]
                 | CondWait c \<Rightarrow> held = [c]
                 | SetProcessed c \<Rightarrow> held = [c]
                 | Broadcast c \<Rightarrow> held = [c]
                 | Lock c \<Rightarrow> held = []
                 | Unlock c \<Rightarrow> held = [c]))"

text \<open>
  A run of operations that starts and ends with no mutex held and keeps the discipline
  in between.
\<close>

definition balanced :: "op list \<Rightarrow> bool" where
  "balanced b = (held_after [] b = [] \<and> list_all lock_discipline (lock_trace [] b))"

subsection \<open>Allocation requests\<close>

text \<open>
  The \<open>malloc\<close> calls of an engine, in order, each with the number of elements it asks
  for: \<open>dither_image_st\<close> lines 351-353, \<open>dither_image_mt\<close> lines 274-305. Neither
  function has a statement before its first \<open>malloc\<close>, and neither has a \<open>return\<close>.
\<close>

datatype alloc =
    Work_rows int
  | Work_row int
  | Mutex_rows int
  | Cond_rows int
  | Processed_rows int
  | Mutex_row int
  | Cond_row int
  | Processed_row int
  | Mutex_cell
  | Cond_cell
  | Processed_cell
  | Thread_handles int
  | Thread_data int

definition st_allocs :: "int \<Rightarrow> int \<Rightarrow> alloc list" where
  "st_allocs width height = Work_rows height # map (\<lambda>y. Work_row width) [0..height - 1]"

definition mt_allocs :: "int \<Rightarrow> int \<Rightarrow> int \<Rightarrow> alloc list" where
  "mt_allocs width height num_threads =
     Work_rows height # map (\<lambda>y. Work_row width) [0..height - 1] @
     [Mutex_rows height, Cond_rows height, Processed_rows height] @
     concat (map (\<lambda>y. [Mutex_row width, Cond_row width, Processed_row width] @
                        concat (map (\<lambda>x. [Mutex_cell, Cond_cell, Processed_cell])
                                    [0..width - 1]))
                 [0..height - 1]) @
     [Thread_handles num_threads, Thread_data num_threads]"

subsection \<open>The choice of the engine\<close>

text \<open>
  \<open>main\<close>, line 423: the wavefront engine runs when more than one thread is asked for
  and the image has at least 10000 pixels. Two executions of two workers on a column of
  two cells are used in the examples below: every step of worker 1 and then every step
  of worker 0, and the other way round.
\<close>

definition uses_wavefront :: "int \<Rightarrow> int \<Rightarrow> int \<Rightarrow> bool" where
  "uses_wavefront num_threads width height =
     (\<not> (num_threads \<le> 1 \<or> height * width < 10000))"

definition worker1_first :: "nat list" where
  "worker1_first = [1, 1, 1, 1, 1, 1, 0, 0, 0, 0, 0, 0, 0, 0, 0]"

definition worker0_first :: "nat list" where
  "worker0_first = [0, 0, 0, 0, 0, 0, 0, 0, 0, 1, 1, 1, 1, 1, 1]"

section \<open>The specification's wording\<close>

text \<open>
  The quantizer, the four targets of the kernel with their weights, and the worker's traversal, written
  as the specification words them: every bound is tested on every target, the valid
  coordinates of a diagonal are met by increasing row, and a diagonal belongs to the
  worker \<open>diagonal mod num_workers\<close>.
\<close>

definition quantize :: "int \<Rightarrow> int \<times> int" where
  "quantize v = (let bit = (if v > 128 then 255 else 0) in (bit, v - bit))"

definition kernel_targets :: "coord \<Rightarrow> (coord \<times> int) list" where
  "kernel_targets c =
     (case c of (row, col) \<Rightarrow>
        [((row, col + 1), 7), ((row + 1, col - 1), 3),
         ((row + 1, col), 5), ((row + 1, col + 1), 1)])"

definition is_deposit :: "op \<Rightarrow> bool" where
  "is_deposit a = (case a of AddWork t w \<Rightarrow> True | _ \<Rightarrow> False)"

definition spec_await :: "int \<Rightarrow> int \<Rightarrow> coord \<Rightarrow> op list" where
  "spec_await width height t = (if in_grid width height t then await_ops t else [])"

definition spec_deposit :: "int \<Rightarrow> int \<Rightarrow> coord \<times> int \<Rightarrow> op list" where
  "spec_deposit width height tw =
     (case tw of (t, w) \<Rightarrow> if in_grid width height t then deposit_ops t w else [])"

definition spec_visit :: "int \<Rightarrow> int \<Rightarrow> coord \<Rightarrow> op list" where
  "spec_visit width height c =
     (case c of (row, col) \<Rightarrow>
        spec_await width height (row - 1, col + 1) @
        spec_await width height (row, col - 1) @
        [ReadWork (row, col), Quantize (row, col)] @
        concat (map (spec_deposit width height) (kernel_targets (row, col))) @
        signal_ops (row, col))"

definition spec_diagonal :: "int \<Rightarrow> int \<Rightarrow> int \<Rightarrow> coord list" where
  "spec_diagonal width height d =
     map (\<lambda>row. (row, d - row))
         (filter (\<lambda>row. in_grid width height (row, d - row)) [0..height - 1])"

definition spec_visits :: "int \<Rightarrow> int \<Rightarrow> int \<Rightarrow> int \<Rightarrow> coord list" where
  "spec_visits worker_id num_workers width height =
     concat (map (spec_diagonal width height)
                 (filter (\<lambda>d. d mod num_workers = worker_id) [0..width + height - 2]))"

definition spec_worker :: "int \<Rightarrow> int \<Rightarrow> int \<Rightarrow> int \<Rightarrow> op list" where
  "spec_worker worker_id num_workers width height =
     concat (map (spec_visit width height)
                 (spec_visits worker_id num_workers width height))"

subsection \<open>Invariant of the interleaving\<close>

text \<open>
  A cell is pending while some thread still has its \<open>Quantize\<close> ahead. Along every
  execution each cell of the grid is pending or already holds one of the two levels.
\<close>

definition pending :: "mt_state \<Rightarrow> coord \<Rightarrow> bool" where
  "pending st c = (\<exists>j < length (threads st). Quantize c \<in> set (ops (threads st ! j)))"

definition bilevel_inv :: "int \<Rightarrow> int \<Rightarrow> mt_state \<Rightarrow> bool" where
  "bilevel_inv width height st =
     (\<forall>c. in_grid width height c \<longrightarrow> output st c \<in> {0, 255} \<or> pending st c)"

subsection \<open>Order of the synchronization\<close>

text \<open>
  The coordinates whose flags the worker waits for before it reads the accumulator of
  \<open>c\<close>, and the state in which some thread still has a deposit into \<open>c\<close> ahead.
\<close>

definition wait_targets :: "int \<Rightarrow> int \<Rightarrow> coord \<Rightarrow> coord list" where
  "wait_targets width height c =
     (case c of (y, x) \<Rightarrow> filter (in_grid width height) [(y - 1, x + 1), (y, x - 1)])"

definition deposit_pending :: "mt_state \<Rightarrow> coord \<Rightarrow> bool" where
  "deposit_pending st c =
     (\<exists>j < length (threads st). \<exists>w. AddWork c w \<in> set (ops (threads st ! j)))"

text \<open>
  The operations that occur once in the programs of all workers together, and the
  coordinate at whose visit each of them is executed: a deposit into \<open>(y, x)\<close> with
  weight 7, 3, 5 or 1 comes from the left, the upper right, the upper or the upper left
  neighbour.
\<close>

definition key_op :: "op \<Rightarrow> bool" where
  "key_op a =
     (case a of ReadWork c \<Rightarrow> True | Quantize c \<Rightarrow> True | AddWork c w \<Rightarrow> True
              | SetProcessed c \<Rightarrow> True | _ \<Rightarrow> False)"

fun visit_of :: "op \<Rightarrow> coord" where
  "visit_of (AddWork (y, x) w) =
     (if w = 7 then (y, x - 1) else if w = 3 then (y - 1, x + 1)
      else if w = 5 then (y - 1, x) else (y - 1, x - 1))"
| "visit_of (Lock c) = c"
| "visit_of (Unlock c) = c"
| "visit_of (CondWait c) = c"
| "visit_of (ReadWork c) = c"
| "visit_of (Quantize c) = c"
| "visit_of (SetProcessed c) = c"
| "visit_of (Broadcast c) = c"

text \<open>The order in which one worker meets coordinates: by diagonal, then by row.\<close>

definition visit_before :: "coord \<Rightarrow> coord \<Rightarrow> bool" where
  "visit_before a b =
     (fst a + snd a < fst b + snd b \<or> (fst a + snd a = fst b + snd b \<and> fst a < fst b))"

text \<open>The worker that visits a coordinate, as an index into the list of threads.\<close>

definition owner :: "int \<Rightarrow> coord \<Rightarrow> nat" where
  "owner n c = nat ((fst c + snd c) mod n)"

text \<open>
  Every \<open>CondWait\<close> of a program directly follows the \<open>Lock\<close> of the same
  coordinate, so a wait that has released the mutex resumes at that \<open>Lock\<close>.
\<close>

primrec guarded_from :: "op \<Rightarrow> op list \<Rightarrow> bool" where
  "guarded_from prev [] = True"
| "guarded_from prev (a # rest) =
     ((case a of CondWait c \<Rightarrow> prev = Lock c | _ \<Rightarrow> True) \<and> guarded_from a rest)"

definition guarded :: "op list \<Rightarrow> bool" where
  "guarded program = (\<forall>prev. guarded_from prev program)"

text \<open>
  \<open>past program a remaining\<close>: the remaining operations lie after an occurrence of
  \<open>a\<close> in the program, so \<open>a\<close> has been executed.
\<close>

fun past :: "op list \<Rightarrow> op \<Rightarrow> op list \<Rightarrow> bool" where
  "past [] a remaining = False"
| "past (b # program) a remaining =
     ((b = a \<and> suffix remaining program) \<or> past program a remaining)"

text \<open>
  The invariant of the executions: every thread is somewhere in its own program; a flag
  is set only once the \<open>SetProcessed\<close> of its coordinate is behind every thread; a
  thread that is past a wait has seen the flag set; a thread that is past a
  \<open>SetProcessed\<close> has set the flag.
\<close>

definition sync_inv :: "int \<Rightarrow> int \<Rightarrow> int \<Rightarrow> mt_state \<Rightarrow> bool" where
  "sync_inv n width height st =
     (length (threads st) = nat n
      \<and> (\<forall>k < nat n. suffix (ops (threads st ! k)) (process_wavefront (int k) n width height))
      \<and> (\<forall>k < nat n. \<forall>c. pixel_processed st c \<noteq> 0
             \<longrightarrow> SetProcessed c \<notin> set (ops (threads st ! k)))
      \<and> (\<forall>k < nat n. \<forall>t. past (process_wavefront (int k) n width height) (CondWait t)
                                   (ops (threads st ! k))
             \<longrightarrow> pixel_processed st t \<noteq> 0)
      \<and> (\<forall>k < nat n. \<forall>c. past (process_wavefront (int k) n width height) (SetProcessed c)
                                   (ops (threads st ! k))
             \<longrightarrow> pixel_processed st c \<noteq> 0))"

text \<open>
  The mutexes a thread holds in the shared state are those its own \<open>Lock\<close> and
  \<open>Unlock\<close> operations say, at every moment of every execution.
\<close>

definition lock_inv :: "int \<Rightarrow> int \<Rightarrow> int \<Rightarrow> mt_state \<Rightarrow> bool" where
  "lock_inv n width height st =
     (length (threads st) = nat n
      \<and> (\<forall>k < nat n. \<exists>Z. process_wavefront (int k) n width height = Z @ ops (threads st ! k)
             \<and> (\<forall>t. (pixel_mutexes st t = Some k) = (t \<in> set (held_after [] Z)))))"


definition before_last_read :: "nat list" where
  "before_last_read = [1, 1] @ replicate 15 0 @ replicate 27 1 @ replicate 3 0"

section \<open>Floor division\<close>

lemma sdiv_nonneg_16: "0 \<le> n \<Longrightarrow> n sdiv (16::int) = n div 16"
  by (cases "n = 0") (simp_all add: signed_divide_int_def)

lemma sdiv_neg_16: "n < 0 \<Longrightarrow> n sdiv (16::int) = - ((- n) div 16)"
  by (simp add: signed_divide_int_def)

lemma wrap_int32_id: "int32_range k \<Longrightarrow> wrap_int32 k = k"
  by (simp add: wrap_int32_def int32_range_def)

lemma wrap_int32_sub_add:
  assumes "int32_range (n - 15)"
  shows "wrap_int32 (wrap_int32 (n - 16) + 1) = n - 15"
proof -
  have "wrap_int32 (wrap_int32 (n - 16) + 1) = ((n - 16 + 2 ^ 31) mod 2 ^ 32 + 1) mod 2 ^ 32 - 2 ^ 31"
    unfolding wrap_int32_def by (simp add: algebra_simps)
  also have "((n - 16 + 2 ^ 31) mod 2 ^ 32 + 1) mod 2 ^ 32 = (n - 16 + 2 ^ 31 + 1) mod 2 ^ 32"
    by (rule mod_add_left_eq)
  also have "(n - 16 + 2 ^ 31 + 1) mod 2 ^ 32 - 2 ^ 31 = wrap_int32 (n - 15)"
    by (simp add: wrap_int32_def algebra_simps)
  also have "\<dots> = n - 15" using assms by (rule wrap_int32_id)
  finally show ?thesis .
qed

lemma div16_range:
  assumes "- (2 ^ 31) + 15 \<le> n" and "n < 2 ^ 31"
  shows "int32_range (n div 16)"
proof -
  have "(- 2147483633) div 16 \<le> n div 16" using assms(1) by (intro zdiv_mono1) simp_all
  moreover have "n div 16 \<le> 2147483647 div 16" using assms(2) by (intro zdiv_mono1) simp_all
  ultimately show ?thesis by (simp add: int32_range_def)
qed

lemma floor_divide_16_div:
  assumes "- (2 ^ 31) + 15 \<le> n" and "n < 2 ^ 31"
  shows "floor_divide n 16 = n div 16"
proof (cases "0 \<le> n")
  case True
  then show ?thesis by (simp add: floor_divide_def sdiv_nonneg_16)
next
  case False
  then have neg: "n - 15 < 0" by simp
  have "int32_range (n - 15)" using assms by (simp add: int32_range_def)
  then have "floor_divide n 16 = (n - 15) sdiv 16"
    using False by (simp add: floor_divide_def wrap_int32_sub_add)
  also have "\<dots> = - ((- (n - 15)) div 16)"
    using neg by (rule sdiv_neg_16)
  also have "\<dots> = n div 16" by presburger
  finally show ?thesis .
qed

lemma ed_floor_divide_eq: "ed_floor_divide n d = floor_divide n d"
  by (simp add: ed_floor_divide_def floor_divide_def)

text \<open>
  Claim C3, as stated: for every integer numerator \<open>n\<close>, \<open>floor_divide n 16\<close> is the
  floor of \<open>n / 16\<close>. For the fifteen numerators \<open>- 2 ^ 31 .. - 2 ^ 31 + 14\<close> the
  subtraction and the addition of \<open>numerator - denominator + 1\<close> leave the range of
  \<open>int\<close>, and the function returns 134217727 where the floor is -134217728.
\<close>

theorem floor_divide_overflow:
  "floor_divide (- 2147483648) 16 = 134217727
   \<and> \<lfloor>real_of_int (- 2147483648) / 16\<rfloor> = - 134217728
   \<and> ed_floor_divide (- 2147483634) 16 = 134217727
   \<and> \<lfloor>real_of_int (- 2147483634) / 16\<rfloor> = - 134217728"
proof -
  have "floor_divide (- 2147483648) 16 = 134217727"
    and "ed_floor_divide (- 2147483634) 16 = 134217727"
    by (simp_all add: floor_divide_def ed_floor_divide_def wrap_int32_def
        signed_divide_int_def)
  moreover have "\<lfloor>real_of_int (- 2147483648) / 16\<rfloor> = - 134217728"
    using floor_divide_of_int_eq [of "- 2147483648" 16, where ?'a = real] by simp
  moreover have "\<lfloor>real_of_int (- 2147483634) / 16\<rfloor> = - 134217728"
    using floor_divide_of_int_eq [of "- 2147483634" 16, where ?'a = real] by simp
  ultimately show ?thesis by blast
qed

text \<open>
  Claim C3, amended. For every numerator \<open>n\<close> of a 32-bit \<open>int\<close> with
  \<open>n \<ge> - 2 ^ 31 + 15\<close> and the denominator 16, \<open>floor_divide n 16\<close> is the floor of the
  quotient \<open>n / 16\<close> (rounding towards minus infinity) and is itself in the range of
  \<open>int\<close>; on \<open>n \<ge> 0\<close> it is the truncating division, on \<open>n < 0\<close> it is the truncating
  division of \<open>n - 16 + 1\<close>, computed without leaving the range when
  \<open>n \<ge> - 2 ^ 31 + 16\<close>; and it takes the five listed values. The same holds for the copy
  of the function in \<open>error_diffusion.c\<close>.
\<close>

theorem floor_divide_is_floor:
  assumes "- (2 ^ 31) + 15 \<le> n" and "n < 2 ^ 31"
  shows "floor_divide n 16 = \<lfloor>real_of_int n / 16\<rfloor>
   \<and> ed_floor_divide n 16 = \<lfloor>real_of_int n / 16\<rfloor>
   \<and> floor_divide n 16 = (if n \<ge> 0 then n sdiv 16 else (n - 16 + 1) sdiv 16)
   \<and> int32_range (floor_divide n 16)
   \<and> (- (2 ^ 31) + 16 \<le> n \<longrightarrow> int32_range (n - 16) \<and> int32_range (n - 16 + 1))
   \<and> floor_divide (-1) 16 = -1 \<and> floor_divide (-15) 16 = -1
   \<and> floor_divide (-16) 16 = -1 \<and> floor_divide 15 16 = 0 \<and> floor_divide 16 16 = 1"
proof -
  have fl: "\<lfloor>real_of_int n / 16\<rfloor> = n div 16"
    using floor_divide_of_int_eq [of n 16, where ?'a = real] by simp
  have d: "floor_divide n 16 = n div 16" using assms by (rule floor_divide_16_div)
  have r: "int32_range (n - 15)" using assms by (simp add: int32_range_def)
  have "floor_divide n 16 = \<lfloor>real_of_int n / 16\<rfloor>"
    by (simp add: fl d)
  moreover have "ed_floor_divide n 16 = \<lfloor>real_of_int n / 16\<rfloor>"
    by (simp add: fl ed_floor_divide_eq d)
  moreover have "floor_divide n 16 = (if n \<ge> 0 then n sdiv 16 else (n - 16 + 1) sdiv 16)"
    using wrap_int32_sub_add [OF r] by (simp add: floor_divide_def)
  moreover have "int32_range (floor_divide n 16)"
    unfolding d using assms by (rule div16_range)
  moreover have "- (2 ^ 31) + 16 \<le> n \<longrightarrow> int32_range (n - 16) \<and> int32_range (n - 16 + 1)"
    using assms by (simp add: int32_range_def)
  moreover have "floor_divide (-1) 16 = -1" "floor_divide (-15) 16 = -1"
    "floor_divide (-16) 16 = -1" "floor_divide 15 16 = 0" "floor_divide 16 16 = 1"
    by (simp_all add: floor_divide_def wrap_int32_def signed_divide_int_def)
  ultimately show ?thesis by blast
qed

text \<open>
  Witness of C3: the lowest numerator of the range, \<open>- 2 ^ 31 + 15\<close>, where the
  subtraction leaves the range of \<open>int\<close> and the addition brings the value back.
\<close>

theorem floor_divide_is_floor_witness:
  "- (2 ^ 31) + 15 \<le> (- 2147483633 :: int) \<and> (- 2147483633 :: int) < 2 ^ 31
   \<and> floor_divide (- 2147483633) 16 = \<lfloor>real_of_int (- 2147483633) / 16\<rfloor>
   \<and> floor_divide (- 2147483633) 16 = - 134217728"
proof -
  have a: "- (2 ^ 31) + 15 \<le> (- 2147483633 :: int)" and b: "(- 2147483633 :: int) < 2 ^ 31"
    by simp_all
  have "floor_divide (- 2147483633) 16 = - 134217728"
    by (simp add: floor_divide_def wrap_int32_def signed_divide_int_def)
  with floor_divide_is_floor [OF a b] a b show ?thesis by blast
qed

section \<open>The serial sweeps\<close>

lemma set_raster: "set (raster width height) = {c. in_grid width height c}"
  by (auto simp: raster_def in_grid_def)

lemma output_add_work: "output (add_work t v s) = output s"
  by (simp add: add_work_def)

lemma input_add_work: "input (add_work t v s) = input s"
  by (simp add: add_work_def)

lemma work_add_work: "work (add_work t v s) = (work s)(t := work s t + v)"
  by (simp add: add_work_def)

lemma output_st_propagate: "output (st_propagate width height c e s) = output s"
  by (cases c) (simp add: st_propagate_def Let_def output_add_work)

lemma input_st_propagate: "input (st_propagate width height c e s) = input s"
  by (cases c) (simp add: st_propagate_def Let_def input_add_work)

lemma output_st_pixel:
  "output (st_pixel width height s c) =
     (output s)(c := word_of_int (if work s c > 128 then 255 else 0))"
  by (simp add: st_pixel_def st_quantize_def Let_def output_st_propagate)

lemma input_st_pixel: "input (st_pixel width height s c) = input s"
  by (simp add: st_pixel_def st_quantize_def Let_def input_st_propagate)

lemma ed_quantize_eq: "ed_quantize s c = st_quantize s c"
  by (simp add: ed_quantize_def st_quantize_def)

lemma ed_propagate_eq: "ed_propagate width height c e s = st_propagate width height c e s"
  by (cases c) (simp add: ed_propagate_def st_propagate_def ed_floor_divide_eq)

lemma ed_pixel_eq: "ed_pixel width height = st_pixel width height"
  by (intro ext) (simp add: ed_pixel_def st_pixel_def ed_quantize_eq ed_propagate_eq)

lemma ed_run_eq: "ed_run inp out width height = st_run inp out width height"
  by (simp add: ed_run_def st_run_def ed_pixel_eq)

lemma dither_image_eq: "dither_image inp out width height = dither_image_st inp out width height"
  by (simp add: dither_image_def dither_image_st_def ed_run_eq)

lemma input_foldl_st_pixel: "input (foldl (st_pixel width height) s cs) = input s"
  by (induction cs arbitrary: s) (simp_all add: input_st_pixel)

lemma output_foldl_st_pixel_bilevel:
  "c \<in> set cs \<or> output s c \<in> {0, 255} \<Longrightarrow>
   output (foldl (st_pixel width height) s cs) c \<in> {0, 255}"
proof (induction cs arbitrary: s)
  case Nil
  then show ?case by simp
next
  case (Cons a cs)
  have "c \<in> set cs \<or> output (st_pixel width height s a) c \<in> {0, 255}"
    using Cons.prems by (auto simp: output_st_pixel)
  from Cons.IH [OF this] show ?case by simp
qed

section \<open>Executions of the wavefront engine\<close>

lemma step_SomeE:
  assumes "step i st = Some st'"
  obtains a rest where "i < length (threads st)" "ops (threads st ! i) = a # rest"
    "exec_op i (threads st ! i) a rest st = Some st'"
  using assms by (auto simp: step_def split: if_splits list.splits)

lemma exec_op_input: "exec_op i t a rest st = Some st' \<Longrightarrow> input st' = input st"
  by (cases a) (auto simp: Let_def split: if_splits)

lemma exec_op_output:
  "exec_op i t a rest st = Some st' \<Longrightarrow>
   output st' = output st \<or>
   (\<exists>c b. a = Quantize c \<and> b \<in> {0, 255} \<and> output st' = (output st)(c := b))"
  by (cases a) (auto simp: Let_def split: if_splits)

lemma exec_op_output_bilevel:
  assumes "exec_op i t a rest st = Some st'" and "output st c \<in> {0, 255}"
  shows "output st' c \<in> {0, 255}"
proof -
  from exec_op_output [OF assms(1)] show ?thesis
  proof
    assume "output st' = output st"
    with assms(2) show ?thesis by simp
  next
    assume "\<exists>q b. a = Quantize q \<and> b \<in> {0, 255} \<and> output st' = (output st)(q := b)"
    then obtain q b where b: "b \<in> {0, 255}" and o: "output st' = (output st)(q := b)"
      by blast
    show ?thesis
    proof (cases "c = q")
      case True
      with b o show ?thesis by simp
    next
      case False
      with o assms(2) show ?thesis by simp
    qed
  qed
qed

lemma exec_op_quantize_bilevel:
  assumes "exec_op i t (Quantize c) rest st = Some st'"
  shows "output st' c \<in> {0, 255}"
  using assms by (auto simp: Let_def)

lemma exec_op_threads:
  "exec_op i t a rest st = Some st' \<Longrightarrow>
   \<exists>t'. threads st' = (threads st)[i := t'] \<and>
        (\<forall>q. Quantize q \<in> set (ops t') \<longleftrightarrow> Quantize q \<in> set rest)"
  by (cases a) (auto simp: Let_def split: if_splits)

lemma step_input: "step i st = Some st' \<Longrightarrow> input st' = input st"
  by (erule step_SomeE) (rule exec_op_input)

lemma run_input: "run sched st = Some st' \<Longrightarrow> input st' = input st"
  by (induction sched arbitrary: st) (auto split: option.splits dest: step_input)

lemma step_bilevel_cell:
  assumes st: "step i st = Some st'"
    and c: "output st c \<in> {0, 255} \<or> pending st c"
  shows "output st' c \<in> {0, 255} \<or> pending st' c"
proof -
  from st obtain a rest where i: "i < length (threads st)"
    and hd: "ops (threads st ! i) = a # rest"
    and ex: "exec_op i (threads st ! i) a rest st = Some st'"
    by (rule step_SomeE)
  from exec_op_threads [OF ex] obtain t' where
    th: "threads st' = (threads st)[i := t']"
    and q: "\<forall>q. Quantize q \<in> set (ops t') \<longleftrightarrow> Quantize q \<in> set rest"
    by blast
  show ?thesis
  proof (cases "output st c \<in> {0, 255}")
    case True
    with ex have "output st' c \<in> {0, 255}" by (rule exec_op_output_bilevel)
    then show ?thesis ..
  next
    case False
    with c obtain j where j: "j < length (threads st)"
      and qc: "Quantize c \<in> set (ops (threads st ! j))"
      by (auto simp: pending_def)
    show ?thesis
    proof (cases "j = i")
      case False
      with j qc th have "pending st' c" by (auto simp: pending_def)
      then show ?thesis ..
    next
      case True
      with qc hd have "a = Quantize c \<or> Quantize c \<in> set rest" by auto
      then show ?thesis
      proof
        assume a: "a = Quantize c"
        have "output st' c \<in> {0, 255}"
          using ex unfolding a by (rule exec_op_quantize_bilevel)
        then show ?thesis ..
      next
        assume "Quantize c \<in> set rest"
        with q have "Quantize c \<in> set (ops t')" by blast
        with th i have "i < length (threads st') \<and> Quantize c \<in> set (ops (threads st' ! i))"
          by simp
        then have "pending st' c" unfolding pending_def by blast
        then show ?thesis ..
      qed
    qed
  qed
qed

lemma step_bilevel_inv:
  "step i st = Some st' \<Longrightarrow> bilevel_inv width height st \<Longrightarrow> bilevel_inv width height st'"
  unfolding bilevel_inv_def using step_bilevel_cell [of i st st'] by blast

lemma run_bilevel_inv:
  "run sched st = Some st' \<Longrightarrow> bilevel_inv width height st \<Longrightarrow> bilevel_inv width height st'"
  by (induction sched arbitrary: st) (auto split: option.splits intro: step_bilevel_inv)

lemma finished_not_pending: "finished st \<Longrightarrow> \<not> pending st c"
  by (auto simp: finished_def pending_def list_all_length)

lemma smod_nonneg: "0 \<le> a \<Longrightarrow> 0 < b \<Longrightarrow> a smod b = a mod (b::int)"
  by (cases "a = 0") (simp_all add: signed_modulo_int_def)

lemma quantize_in_pixel_ops: "Quantize c \<in> set (pixel_ops width height c)"
  by (cases c) (simp add: pixel_ops_def)

lemma quantize_in_diagonal_ops:
  assumes "in_grid width height (y, x)"
  shows "Quantize (y, x) \<in> set (diagonal_ops width height (y + x))"
proof -
  have "y \<in> set [0..height - 1]" using assms by (simp add: in_grid_def)
  moreover have "Quantize (y, x) \<in> set (let x' = (y + x) - y
      in if x' \<ge> 0 \<and> x' < width then pixel_ops width height (y, x') else [])"
    using assms by (simp add: in_grid_def quantize_in_pixel_ops)
  ultimately show ?thesis unfolding diagonal_ops_def set_concat set_map by blast
qed

lemma quantize_in_process_wavefront:
  assumes n: "0 < n" and g: "in_grid width height (y, x)"
  shows "Quantize (y, x) \<in> set (process_wavefront ((y + x) mod n) n width height)"
proof -
  have d: "y + x \<in> set [0..width + height - 2]" using g by (auto simp: in_grid_def)
  have "0 \<le> y + x" using g by (auto simp: in_grid_def)
  then have m: "(y + x) smod n = (y + x) mod n" using n by (rule smod_nonneg)
  have "Quantize (y, x) \<in> set (if (y + x) smod n \<noteq> (y + x) mod n then []
      else diagonal_ops width height (y + x))"
    using m quantize_in_diagonal_ops [OF g] by simp
  with d show ?thesis unfolding process_wavefront_def set_concat set_map by blast
qed

lemma mt_init_pending:
  assumes n: "0 < n" and g: "in_grid width height c"
  shows "pending (mt_init inp out width height n) c"
proof -
  obtain y x where c: "c = (y, x)" by (cases c)
  define k where "k = nat ((y + x) mod n)"
  have k: "k < nat n" "int k = (y + x) mod n" using n by (simp_all add: k_def nat_less_iff)
  have "[0..n - 1] ! k = int k" using k by (simp add: nth_upto)
  with k have "Quantize c \<in> set (ops (threads (mt_init inp out width height n) ! k))"
    using quantize_in_process_wavefront [OF n g [unfolded c]] by (simp add: mt_init_def c)
  moreover have "k < length (threads (mt_init inp out width height n))"
    using k by (simp add: mt_init_def)
  ultimately show ?thesis unfolding pending_def by blast
qed

lemma mt_bilevel:
  assumes n: "0 < n"
    and r: "dither_image_mt inp out width height n sched = Some res"
    and g: "in_grid width height c"
  shows "res c \<in> {0, 255}"
proof -
  from r obtain st where run: "run sched (mt_init inp out width height n) = Some st"
    and fin: "finished st" and res: "res = output st"
    by (auto simp: dither_image_mt_def split: option.splits if_splits)
  have "bilevel_inv width height (mt_init inp out width height n)"
    unfolding bilevel_inv_def using mt_init_pending [OF n] by blast
  from run_bilevel_inv [OF run this] have "bilevel_inv width height st" .
  with g have "output st c \<in> {0, 255} \<or> pending st c" unfolding bilevel_inv_def by blast
  with finished_not_pending [OF fin, of c] res show ?thesis by blast
qed

section \<open>Auxiliary facts\<close>

lemma foldl_upd_apply:
  "foldl (\<lambda>w c. w(c := f c)) w0 cs c' = (if c' \<in> set cs then f c' else w0 c')"
  by (induction cs arbitrary: w0) auto

lemma seed_work_apply:
  "seed_work inp width height c = (if in_grid width height c then uint (inp c) else 0)"
  by (simp add: seed_work_def foldl_upd_apply set_raster)

lemma st_bilevel:
  assumes "in_grid width height c"
  shows "dither_image_st inp out width height c \<in> {0, 255}"
proof -
  have "c \<in> set (raster width height)" using assms by (simp add: set_raster)
  then show ?thesis
    unfolding dither_image_st_def st_run_def
    by (intro output_foldl_st_pixel_bilevel) simp
qed

lemma st_run_input: "input (st_run inp out width height) = inp"
  by (simp add: st_run_def input_foldl_st_pixel)

lemma mt_init_input: "input (mt_init inp out width height n) = inp"
  by (simp add: mt_init_def)

lemma run_worker1_first:
  "\<exists>st. run worker1_first (mt_init (\<lambda>c. 100) (\<lambda>c. 7) 1 2 2) = Some st \<and> finished st"
proof -
  have "(case run worker1_first (mt_init (\<lambda>c. 100) (\<lambda>c. 7) 1 2 2) of
           None \<Rightarrow> False | Some st \<Rightarrow> finished st)"
    by code_simp
  then show ?thesis by (auto split: option.splits)
qed

lemma held_after_append: "held_after h (xs @ ys) = held_after (held_after h xs) ys"
  by (induction h xs rule: held_after.induct) simp_all

lemma lock_trace_append:
  "lock_trace h (xs @ ys) = lock_trace h xs @ lock_trace (held_after h xs) ys"
  by (induction h xs rule: lock_trace.induct) simp_all

lemma balanced_Nil: "balanced []"
  by (simp add: balanced_def)

lemma balanced_append: "balanced xs \<Longrightarrow> balanced ys \<Longrightarrow> balanced (xs @ ys)"
  by (simp add: balanced_def held_after_append lock_trace_append)

lemma balanced_concat: "(\<And>b. b \<in> set bs \<Longrightarrow> balanced b) \<Longrightarrow> balanced (concat bs)"
  by (induction bs) (simp_all add: balanced_Nil balanced_append)

lemma balanced_await: "balanced (await_ops t)"
  by (simp add: balanced_def await_ops_def lock_discipline_def)

lemma balanced_deposit: "balanced (deposit_ops t w)"
  by (simp add: balanced_def deposit_ops_def lock_discipline_def)

lemma balanced_signal: "balanced (signal_ops c)"
  by (simp add: balanced_def signal_ops_def lock_discipline_def)

lemma balanced_read_quantize: "balanced [ReadWork c, Quantize c]"
  by (simp add: balanced_def lock_discipline_def)

lemma balanced_pixel_ops: "balanced (pixel_ops width height c)"
  unfolding pixel_ops_def
  by (cases c)
    (simp add: balanced_append balanced_Nil balanced_await balanced_deposit
      balanced_signal balanced_read_quantize del: append.simps)

lemma balanced_diagonal_ops: "balanced (diagonal_ops width height d)"
  unfolding diagonal_ops_def
  by (rule balanced_concat) (auto simp: Let_def balanced_Nil balanced_pixel_ops)

lemma balanced_process_wavefront: "balanced (process_wavefront i n width height)"
  unfolding process_wavefront_def
  by (rule balanced_concat) (auto simp: balanced_Nil balanced_diagonal_ops)

lemma concat_map_if:
  "concat (map (\<lambda>x. if P x then f x else []) xs) = concat (map f (filter P xs))"
  by (induction xs) simp_all

lemma concat_map_concat:
  "concat (map f (concat xss)) = concat (map (\<lambda>xs. concat (map f xs)) xss)"
  by (induction xss) simp_all

lemma pixel_ops_spec:
  assumes "in_grid width height (y, x)"
  shows "pixel_ops width height (y, x) = spec_visit width height (y, x)"
  using assms
  by (simp add: pixel_ops_def spec_visit_def spec_await_def spec_deposit_def
      kernel_targets_def in_grid_def)

lemma diagonal_ops_spec:
  "diagonal_ops width height d =
     concat (map (spec_visit width height) (spec_diagonal width height d))"
proof -
  have "diagonal_ops width height d =
      concat (map (\<lambda>y. if in_grid width height (y, d - y)
                         then spec_visit width height (y, d - y) else []) [0..height - 1])"
    unfolding diagonal_ops_def
    by (intro arg_cong [where f = concat] map_cong refl)
      (auto simp: Let_def pixel_ops_spec in_grid_def)
  also have "\<dots> = concat (map (\<lambda>y. spec_visit width height (y, d - y))
      (filter (\<lambda>y. in_grid width height (y, d - y)) [0..height - 1]))"
    by (rule concat_map_if)
  finally show ?thesis by (simp add: spec_diagonal_def comp_def)
qed

lemma process_wavefront_spec:
  assumes "0 < n"
  shows "process_wavefront w n width height = spec_worker w n width height"
proof -
  have "process_wavefront w n width height =
      concat (map (\<lambda>d. if d mod n = w then diagonal_ops width height d else [])
                  [0..width + height - 2])"
    unfolding process_wavefront_def
    by (intro arg_cong [where f = concat] map_cong refl) (simp add: smod_nonneg assms)
  also have "\<dots> = concat (map (diagonal_ops width height)
      (filter (\<lambda>d. d mod n = w) [0..width + height - 2]))"
    by (rule concat_map_if)
  also have "\<dots> = concat (map (\<lambda>d. concat (map (spec_visit width height)
      (spec_diagonal width height d))) (filter (\<lambda>d. d mod n = w) [0..width + height - 2]))"
    by (intro arg_cong [where f = concat] map_cong refl) (rule diagonal_ops_spec)
  finally show ?thesis
    by (simp add: spec_worker_def spec_visits_def concat_map_concat comp_def)
qed

lemma set_spec_diagonal:
  "set (spec_diagonal width height d) = {(r, c). in_grid width height (r, c) \<and> r + c = d}"
  by (auto simp: spec_diagonal_def in_grid_def)


lemma set_spec_visits:
  assumes "0 < n"
  shows "set (spec_visits w n width height) =
     {(r, c). in_grid width height (r, c) \<and> (r + c) mod n = w}"
  by (auto simp: spec_visits_def set_spec_diagonal in_grid_def)

lemma work_st_propagate:
  "work (st_propagate width height (y, x) e s) t =
     work s t
     + (if t = (y, x + 1) \<and> x + 1 < width then floor_divide (e * 7) 16 else 0)
     + (if t = (y + 1, x - 1) \<and> y + 1 < height \<and> x - 1 \<ge> 0 then floor_divide (e * 3) 16 else 0)
     + (if t = (y + 1, x) \<and> y + 1 < height then floor_divide (e * 5) 16 else 0)
     + (if t = (y + 1, x + 1) \<and> y + 1 < height \<and> x + 1 < width then floor_divide (e * 1) 16 else 0)"
  by (simp add: st_propagate_def Let_def work_add_work)

lemma st_propagate_targets:
  assumes g: "in_grid width height (y, x)"
    and m: "(t, w) \<in> set (kernel_targets (y, x))" and tg: "in_grid width height t"
  shows "work (st_propagate width height (y, x) e s) t = work s t + floor_divide (e * w) 16"
  using assms unfolding work_st_propagate
  by (auto simp: kernel_targets_def in_grid_def)

lemma st_propagate_others:
  assumes g: "in_grid width height (y, x)"
    and m: "\<not> (in_grid width height t \<and> t \<in> fst ` set (kernel_targets (y, x)))"
  shows "work (st_propagate width height (y, x) e s) t = work s t"
  using assms unfolding work_st_propagate
  by (auto simp: kernel_targets_def in_grid_def)

lemma st_pixel_stages:
  "st_pixel width height s c =
     st_propagate width height c (snd (quantize (work s c))) (fst (st_quantize s c))"
  by (simp add: st_pixel_def st_quantize_def quantize_def Let_def)

lemma work_st_quantize: "work (fst (st_quantize s c)) = work s"
  by (simp add: st_quantize_def Let_def)

lemma work_st_pixel:
  "work (st_pixel width height s (y, x)) =
     work (st_propagate width height (y, x) (snd (quantize (work s (y, x)))) s)"
  by (rule ext) (simp add: st_pixel_stages work_st_propagate work_st_quantize)

lemma deposits_of_pixel_ops:
  assumes "in_grid width height (y, x)"
  shows "filter is_deposit (pixel_ops width height (y, x)) =
     map (\<lambda>(t, w). AddWork t w)
         (filter (\<lambda>(t, w). in_grid width height t) (kernel_targets (y, x)))"
  using assms
  by (simp add: pixel_ops_def await_ops_def deposit_ops_def signal_ops_def is_deposit_def
      kernel_targets_def in_grid_def)

lemma uint_level: "uint (word_of_int (fst (quantize v)) :: 8 word) = fst (quantize v)"
  by (simp add: quantize_def)

lemma st_quantize_spec:
  "st_quantize s c =
     (s\<lparr>output := (output s)(c := word_of_int (fst (quantize (work s c))))\<rparr>,
      snd (quantize (work s c)))"
  by (simp add: st_quantize_def quantize_def Let_def)

lemma exec_quantize_spec:
  "exec_op i t (Quantize c) rest st =
     Some (st\<lparr>output := (output st)(c := word_of_int (fst (quantize (old_pixel t)))),
              threads := (threads st)[i := t\<lparr>ops := rest, err := snd (quantize (old_pixel t))\<rparr>]\<rparr>)"
  by (simp add: quantize_def Let_def)

lemma raster_empty: "height \<le> 0 \<or> width \<le> 0 \<Longrightarrow> raster width height = []"
  by (auto simp: raster_def)

lemma diagonal_ops_empty: "height \<le> 0 \<or> width \<le> 0 \<Longrightarrow> diagonal_ops width height d = []"
  by (auto simp: diagonal_ops_def Let_def)

lemma process_wavefront_empty:
  "height \<le> 0 \<or> width \<le> 0 \<Longrightarrow> process_wavefront i n width height = []"
  by (auto simp: process_wavefront_def diagonal_ops_empty)

lemma st_malformed: "height \<le> 0 \<or> width \<le> 0 \<Longrightarrow> dither_image_st inp out width height = out"
  by (simp add: dither_image_st_def st_run_def raster_empty)

lemma mt_malformed:
  "height \<le> 0 \<or> width \<le> 0 \<Longrightarrow> dither_image_mt inp out width height n [] = Some out"
  by (simp add: dither_image_mt_def mt_init_def finished_def process_wavefront_empty
      list_all_iff)

lemma uses_wavefront_column: "uses_wavefront 2 1 10000"
  by (simp add: uses_wavefront_def)

section \<open>The order of the synchronization\<close>

subsection \<open>Suffixes\<close>

lemma suffix_after_absent:
  assumes "suffix S (L @ b # R)" and "b \<notin> set S"
  shows "suffix S R"
proof -
  have "suffix (b # R) (L @ b # R)" by (simp add: suffix_def)
  with assms(1) have "suffix S (b # R) \<or> suffix (b # R) S" by (rule suffix_same_cases)
  then show ?thesis
  proof
    assume "suffix S (b # R)"
    with assms(2) show ?thesis by (auto simp: suffix_Cons)
  next
    assume "suffix (b # R) S"
    then have "b \<in> set S" by (auto simp: suffix_def)
    with assms(2) show ?thesis by simp
  qed
qed

lemma suffix_part_absent:
  assumes "suffix S (L @ R)" and "b \<in> set R" and "b \<notin> set S"
  shows "suffix S R"
proof -
  have "suffix R (L @ R)" by (simp add: suffix_def)
  with assms(1) have "suffix S R \<or> suffix R S" by (rule suffix_same_cases)
  then show ?thesis
  proof
    assume "suffix R S"
    then have "set R \<subseteq> set S" by (rule set_mono_suffix)
    with assms(2,3) show ?thesis by blast
  qed
qed

lemma suffix_part_head:
  assumes "suffix (a # S) (L @ R)" and "a \<notin> set L" and "a \<in> set R"
  shows "suffix (a # S) R"
proof -
  have "suffix R (L @ R)" by (simp add: suffix_def)
  with assms(1) have "suffix (a # S) R \<or> suffix R (a # S)" by (rule suffix_same_cases)
  then show ?thesis
  proof
    assume "suffix R (a # S)"
    then obtain Z where z: "a # S = Z @ R" by (auto simp: suffix_def)
    from assms(1) obtain Y where "L @ R = Y @ a # S" by (auto simp: suffix_def)
    with z have "L @ R = (Y @ Z) @ R" by simp
    then have l: "L = Y @ Z" by simp
    show ?thesis
    proof (cases Z)
      case Nil
      with z show ?thesis by simp
    next
      case (Cons z' Z')
      with z have "z' = a" by simp
      with Cons l assms(2) show ?thesis by simp
    qed
  qed
qed

subsection \<open>Past an operation\<close>

lemma past_iff:
  "past P a S \<longleftrightarrow> (\<exists>L R. P = L @ a # R \<and> suffix S R)"
proof (induction P)
  case Nil
  then show ?case by simp
next
  case (Cons b P)
  show ?case
  proof
    assume "past (b # P) a S"
    then consider "b = a" "suffix S P" | "past P a S" by auto
    then show "\<exists>L R. b # P = L @ a # R \<and> suffix S R"
    proof cases
      case 1
      then have "b # P = [] @ a # P \<and> suffix S P" by simp
      then show ?thesis by blast
    next
      case 2
      with Cons.IH obtain L R where "P = L @ a # R" "suffix S R" by blast
      then have "b # P = (b # L) @ a # R \<and> suffix S R" by simp
      then show ?thesis by blast
    qed
  next
    assume "\<exists>L R. b # P = L @ a # R \<and> suffix S R"
    then obtain L R where e: "b # P = L @ a # R" and s: "suffix S R" by blast
    show "past (b # P) a S"
    proof (cases L)
      case Nil
      with e s show ?thesis by simp
    next
      case (Cons l L')
      with e have "P = L' @ a # R" by simp
      with s Cons.IH have "past P a S" by blast
      then show ?thesis by simp
    qed
  qed
qed

lemma pastI: "P = L @ a # R \<Longrightarrow> suffix S R \<Longrightarrow> past P a S"
  unfolding past_iff by blast

lemma past_suffix:
  assumes "past P a S" and "suffix S' S"
  shows "past P a S'"
proof -
  from assms(1) obtain L R where P: "P = L @ a # R" and "suffix S R"
    unfolding past_iff by blast
  with assms(2) have "suffix S' R" by (meson suffix_order.trans)
  with P show ?thesis by (rule pastI)
qed

lemma not_past_self: "\<not> past P a P"
proof
  assume "past P a P"
  then obtain L R where "P = L @ a # R" "suffix P R" unfolding past_iff by blast
  then have "length P \<le> length R" "length P = length L + Suc (length R)"
    by (auto dest: suffix_length_le)
  then show False by simp
qed

lemma past_step:
  assumes p: "past P b rest" and s: "suffix (a # rest) P"
  shows "past P b (a # rest) \<or> a = b"
proof -
  from p obtain L R where P: "P = L @ b # R" and r: "suffix rest R"
    unfolding past_iff by blast
  from r obtain Z where Z: "R = Z @ rest" by (auto simp: suffix_def)
  from s obtain Y where Y: "P = Y @ a # rest" by (auto simp: suffix_def)
  show ?thesis
  proof (cases Z rule: rev_cases)
    case Nil
    with Z P Y have "L @ b # rest = Y @ a # rest" by simp
    then have "a = b" by (simp add: append_eq_append_conv)
    then show ?thesis ..
  next
    case (snoc Z' z)
    with Z P Y have "(L @ b # Z') @ z # rest = Y @ a # rest" by simp
    then have "z = a" by (simp add: append_eq_append_conv del: append_assoc)
    with snoc Z have "R = Z' @ a # rest" by simp
    then have "suffix (a # rest) R" by (simp add: suffix_def)
    with P have "past P b (a # rest)" by (rule pastI)
    then show ?thesis ..
  qed
qed

subsection \<open>Guarded waits\<close>

lemma guarded_from_append:
  "guarded_from p (xs @ ys) = (guarded_from p xs \<and> guarded_from (last (p # xs)) ys)"
  by (induction xs arbitrary: p) auto

lemma guarded_append: "guarded xs \<Longrightarrow> guarded ys \<Longrightarrow> guarded (xs @ ys)"
  by (simp add: guarded_def guarded_from_append)

lemma guarded_concat: "(\<And>b. b \<in> set bs \<Longrightarrow> guarded b) \<Longrightarrow> guarded (concat bs)"
proof (induction bs)
  case Nil
  then show ?case by (simp add: guarded_def)
next
  case (Cons b bs)
  then show ?case by (simp add: guarded_append)
qed

lemma guarded_wait:
  assumes "guarded P" and "P = Z @ CondWait c # rest"
  shows "\<exists>Z'. Z = Z' @ [Lock c]"
proof -
  from assms have "guarded_from (Unlock c) (Z @ CondWait c # rest)"
    by (simp add: guarded_def)
  then have l: "last (Unlock c # Z) = Lock c" by (simp add: guarded_from_append)
  then have "Z \<noteq> []" by auto
  with l have "Z = butlast Z @ [Lock c]" by (metis append_butlast_last_id last_ConsR)
  then show ?thesis ..
qed

lemma suffix_retry:
  assumes "guarded P" and "suffix (CondWait c # rest) P"
  shows "suffix (Lock c # CondWait c # rest) P"
proof -
  from assms(2) obtain Z where P: "P = Z @ CondWait c # rest" by (auto simp: suffix_def)
  with assms(1) obtain Z' where "Z = Z' @ [Lock c]"
    using guarded_wait by blast
  with P have "P = Z' @ Lock c # CondWait c # rest" by simp
  then show ?thesis by (simp add: suffix_def)
qed

subsection \<open>The program of a worker as a list of visits\<close>

lemma process_wavefront_visits:
  assumes "0 < n"
  shows "process_wavefront w n width height =
     concat (map (pixel_ops width height) (spec_visits w n width height))"
proof -
  have "map (spec_visit width height) (spec_visits w n width height) =
      map (pixel_ops width height) (spec_visits w n width height)"
  proof (rule map_cong [OF refl])
    fix c assume "c \<in> set (spec_visits w n width height)"
    then have "in_grid width height c"
      using set_spec_visits [OF assms, of w width height] by auto
    then show "spec_visit width height c = pixel_ops width height c"
      by (cases c) (simp add: pixel_ops_spec)
  qed
  then have "spec_worker w n width height =
      concat (map (pixel_ops width height) (spec_visits w n width height))"
    unfolding spec_worker_def by (rule arg_cong)
  with process_wavefront_spec [OF assms, of w width height] show ?thesis by simp
qed

lemma sorted_wrt_concat_map:
  assumes "sorted_wrt (<) (ds :: int list)"
    and "\<And>d. d \<in> set ds \<Longrightarrow> sorted_wrt R (f d)"
    and "\<And>d d' a b. d \<in> set ds \<Longrightarrow> d' \<in> set ds \<Longrightarrow> d < d' \<Longrightarrow> a \<in> set (f d) \<Longrightarrow> b \<in> set (f d')
           \<Longrightarrow> R a b"
  shows "sorted_wrt R (concat (map f ds))"
  using assms
proof (induction ds)
  case Nil
  then show ?case by simp
next
  case (Cons d ds)
  have "sorted_wrt R (concat (map f ds))"
  proof (rule Cons.IH)
    show "sorted_wrt (<) ds" using Cons.prems(1) by simp
    show "sorted_wrt R (f d')" if "d' \<in> set ds" for d'
      using that Cons.prems(2) [of d'] by simp
    show "R a b" if "d1 \<in> set ds" "d2 \<in> set ds" "d1 < d2" "a \<in> set (f d1)" "b \<in> set (f d2)"
      for d1 d2 a b
      using that Cons.prems(3) [of d1 d2 a b] by simp
  qed
  moreover have "sorted_wrt R (f d)" using Cons.prems(2) by simp
  moreover have "R a b" if a: "a \<in> set (f d)" and b: "b \<in> set (concat (map f ds))" for a b
  proof -
    from b obtain d' where d': "d' \<in> set ds" "b \<in> set (f d')" by auto
    with Cons.prems(1) have "d < d'" by auto
    with d' a show ?thesis by (intro Cons.prems(3) [of d d']) auto
  qed
  ultimately show ?case by (simp add: sorted_wrt_append)
qed

lemma sorted_spec_diagonal_visits:
  "sorted_wrt visit_before (spec_diagonal width height d)"
proof -
  have "sorted_wrt (<) (filter (\<lambda>row. in_grid width height (row, d - row)) [0..height - 1])"
    by (simp add: sorted_wrt_filter sorted_wrt_upto)
  then have "sorted_wrt (\<lambda>r r'. visit_before (r, d - r) (r', d - r'))
      (filter (\<lambda>row. in_grid width height (row, d - row)) [0..height - 1])"
    by (rule sorted_wrt_mono_rel [rotated]) (simp add: visit_before_def)
  then show ?thesis by (simp add: spec_diagonal_def sorted_wrt_map)
qed

lemma sorted_spec_visits: "sorted_wrt visit_before (spec_visits w n width height)"
  unfolding spec_visits_def
proof (rule sorted_wrt_concat_map)
  show "sorted_wrt (<) (filter (\<lambda>d. d mod n = w) [0..width + height - 2])"
    by (simp add: sorted_wrt_filter sorted_wrt_upto)
next
  fix d show "sorted_wrt visit_before (spec_diagonal width height d)"
    by (rule sorted_spec_diagonal_visits)
next
  fix d d' a b
  assume "d < d'" "a \<in> set (spec_diagonal width height d)"
    "b \<in> set (spec_diagonal width height d')"
  then show "visit_before a b"
    by (auto simp: set_spec_diagonal visit_before_def)
qed

lemma visit_before_irrefl: "\<not> visit_before c c"
  by (simp add: visit_before_def)

lemma visit_before_asym: "visit_before a b \<Longrightarrow> \<not> visit_before b a"
  by (auto simp: visit_before_def)

lemma visits_split:
  assumes "c \<in> set (spec_visits w n width height)"
  shows "\<exists>v1 v2. spec_visits w n width height = v1 @ c # v2
    \<and> (\<forall>q \<in> set v1. visit_before q c) \<and> (\<forall>q \<in> set v2. visit_before c q)"
proof -
  from assms obtain v1 v2 where v: "spec_visits w n width height = v1 @ c # v2"
    by (auto dest: split_list)
  have "sorted_wrt visit_before (v1 @ c # v2)"
    using sorted_spec_visits [of w n width height] v by simp
  then have "(\<forall>q \<in> set v1. visit_before q c) \<and> (\<forall>q \<in> set v2. visit_before c q)"
    by (auto simp: sorted_wrt_append)
  with v show ?thesis by blast
qed

subsection \<open>The operations of one visit\<close>

lemma visit_of_pixel_ops:
  "a \<in> set (pixel_ops width height c) \<Longrightarrow> key_op a \<Longrightarrow> visit_of a = c"
  by (cases c)
    (auto simp: pixel_ops_def await_ops_def deposit_ops_def signal_ops_def key_op_def
      split: if_splits)

lemma visit_of_kernel_target:
  "(t, w) \<in> set (kernel_targets c) \<Longrightarrow> visit_of (AddWork t w) = c"
  by (cases c) (auto simp: kernel_targets_def)

lemma visit_of_visits:
  assumes "a \<in> set (concat (map (pixel_ops width height) vs))" and "key_op a"
  shows "visit_of a \<in> set vs"
  using assms by (auto dest: visit_of_pixel_ops)

lemma guarded_pixel_ops: "guarded (pixel_ops width height c)"
  by (cases c)
    (simp add: guarded_def pixel_ops_def await_ops_def deposit_ops_def signal_ops_def
      guarded_from_append)

lemma guarded_Nil: "guarded []"
  by (simp add: guarded_def)

lemma guarded_diagonal_ops: "guarded (diagonal_ops width height d)"
  unfolding diagonal_ops_def
  by (rule guarded_concat) (auto simp: Let_def guarded_pixel_ops guarded_Nil)

lemma guarded_process_wavefront: "guarded (process_wavefront w n width height)"
  unfolding process_wavefront_def
  by (rule guarded_concat) (auto simp: guarded_diagonal_ops guarded_Nil)

lemma pixel_ops_signal:
  "\<exists>X. pixel_ops width height c = X @ SetProcessed c # [Broadcast c, Unlock c]"
proof (cases c)
  case (Pair y x)
  have "pixel_ops width height (y, x) =
      (butlast (butlast (butlast (pixel_ops width height (y, x)))))
        @ SetProcessed (y, x) # [Broadcast (y, x), Unlock (y, x)]"
    by (simp add: pixel_ops_def signal_ops_def butlast_append)
  with Pair show ?thesis by blast
qed

lemma pixel_ops_wait:
  assumes "t \<in> set (wait_targets width height c)"
  shows "\<exists>A1 A2. pixel_ops width height c = A1 @ CondWait t # A2
     \<and> ReadWork c \<notin> set A1 \<and> ReadWork c \<in> set A2 \<and> SetProcessed c \<in> set A2"
proof (cases c)
  case (Pair y x)
  define tail where "tail = [ReadWork (y, x), Quantize (y, x)] @
        (if x + 1 < width then deposit_ops (y, x + 1) 7 else []) @
        (if y + 1 < height then
           (if x - 1 \<ge> 0 then deposit_ops (y + 1, x - 1) 3 else []) @
           deposit_ops (y + 1, x) 5 @
           (if x + 1 < width then deposit_ops (y + 1, x + 1) 1 else [])
         else []) @
        signal_ops (y, x)"
  have p: "pixel_ops width height (y, x) =
      (if y > 0 \<and> x + 1 < width then await_ops (y - 1, x + 1) else []) @
      (if x > 0 then await_ops (y, x - 1) else []) @ tail"
    by (simp add: pixel_ops_def tail_def)
  have tl: "ReadWork (y, x) \<in> set tail" "SetProcessed (y, x) \<in> set tail"
    by (simp_all add: tail_def signal_ops_def)
  from assms Pair consider "t = (y - 1, x + 1)" "in_grid width height (y - 1, x + 1)"
    | "t = (y, x - 1)" "in_grid width height (y, x - 1)"
    by (auto simp: wait_targets_def split: if_splits)
  then show ?thesis
  proof cases
    case 1
    then have "pixel_ops width height (y, x) = [Lock t] @ CondWait t #
        ([Unlock t] @ (if x > 0 then await_ops (y, x - 1) else []) @ tail)"
      unfolding p by (simp add: await_ops_def in_grid_def)
    moreover have "ReadWork (y, x) \<notin> set [Lock t]" by simp
    moreover have "ReadWork (y, x) \<in> set ([Unlock t] @ (if x > 0 then await_ops (y, x - 1) else []) @ tail)"
      "SetProcessed (y, x) \<in> set ([Unlock t] @ (if x > 0 then await_ops (y, x - 1) else []) @ tail)"
      using tl by simp_all
    ultimately show ?thesis unfolding Pair by blast
  next
    case 2
    then have "pixel_ops width height (y, x) =
        ((if y > 0 \<and> x + 1 < width then await_ops (y - 1, x + 1) else []) @ [Lock t])
         @ CondWait t # ([Unlock t] @ tail)"
      unfolding p by (simp add: await_ops_def in_grid_def)
    moreover have "ReadWork (y, x) \<notin>
        set ((if y > 0 \<and> x + 1 < width then await_ops (y - 1, x + 1) else []) @ [Lock t])"
      by (simp add: await_ops_def)
    moreover have "ReadWork (y, x) \<in> set ([Unlock t] @ tail)"
      "SetProcessed (y, x) \<in> set ([Unlock t] @ tail)"
      using tl by simp_all
    ultimately show ?thesis unfolding Pair by blast
  qed
qed

lemma distinct_keys_pixel_ops: "distinct (filter key_op (pixel_ops width height c))"
  by (cases c)
    (auto simp: pixel_ops_def await_ops_def deposit_ops_def signal_ops_def key_op_def)

lemma distinct_concat_by_key:
  assumes "distinct vs" and "\<And>v. v \<in> set vs \<Longrightarrow> distinct (g v)"
    and "\<And>v a. v \<in> set vs \<Longrightarrow> a \<in> set (g v) \<Longrightarrow> h a = v"
  shows "distinct (concat (map g vs))"
  using assms
proof (induction vs)
  case Nil
  then show ?case by simp
next
  case (Cons v vs)
  have "distinct (concat (map g vs))" using Cons.prems by (intro Cons.IH) auto
  moreover have "distinct (g v)" using Cons.prems(2) by simp
  moreover have "set (g v) \<inter> set (concat (map g vs)) = {}"
  proof (rule ccontr)
    assume "set (g v) \<inter> set (concat (map g vs)) \<noteq> {}"
    then obtain a v' where "a \<in> set (g v)" "v' \<in> set vs" "a \<in> set (g v')" by auto
    with Cons.prems(3) have "h a = v" "h a = v'" by auto
    with \<open>v' \<in> set vs\<close> Cons.prems(1) show False by auto
  qed
  ultimately show ?case by simp
qed

lemma sorted_wrt_irrefl_distinct:
  "sorted_wrt R xs \<Longrightarrow> (\<And>x. \<not> R x x) \<Longrightarrow> distinct xs"
  by (induction xs) auto

lemma distinct_spec_visits: "distinct (spec_visits w n width height)"
  using sorted_spec_visits by (rule sorted_wrt_irrefl_distinct) (rule visit_before_irrefl)

lemma distinct_keys_visits:
  assumes "distinct vs"
  shows "distinct (filter key_op (concat (map (pixel_ops width height) vs)))"
proof -
  have "filter key_op (concat (map (pixel_ops width height) vs)) =
      concat (map (\<lambda>v. filter key_op (pixel_ops width height v)) vs)"
    by (simp add: filter_concat comp_def)
  moreover have "distinct (concat (map (\<lambda>v. filter key_op (pixel_ops width height v)) vs))"
    using assms
    by (rule distinct_concat_by_key [where h = visit_of])
      (auto simp: distinct_keys_pixel_ops dest: visit_of_pixel_ops)
  ultimately show ?thesis by simp
qed

lemma key_once:
  assumes "distinct (filter key_op P)" and "key_op a" and "P = L @ a # R"
  shows "a \<notin> set L \<and> a \<notin> set R"
  using assms by auto

subsection \<open>Static facts about a worker's program\<close>

lemma distinct_keys_process_wavefront:
  assumes "0 < n"
  shows "distinct (filter key_op (process_wavefront w n width height))"
  unfolding process_wavefront_visits [OF assms]
  by (rule distinct_keys_visits) (rule distinct_spec_visits)

lemma key_visit_process_wavefront:
  assumes "0 < n" and "a \<in> set (process_wavefront w n width height)" and "key_op a"
  shows "visit_of a \<in> set (spec_visits w n width height)"
  using assms(2,3) unfolding process_wavefront_visits [OF assms(1)]
  by (rule visit_of_visits)

lemma key_owner_process_wavefront:
  assumes "0 < n" and "a \<in> set (process_wavefront w n width height)" and "key_op a"
  shows "in_grid width height (visit_of a) \<and> (fst (visit_of a) + snd (visit_of a)) mod n = w"
proof -
  obtain y x where v: "visit_of a = (y, x)" by (cases "visit_of a")
  from key_visit_process_wavefront [OF assms] v
  have "(y, x) \<in> set (spec_visits w n width height)" by simp
  then have "(y, x) \<in> {(r, c). in_grid width height (r, c) \<and> (r + c) mod n = w}"
    unfolding set_spec_visits [OF assms(1)] .
  with v show ?thesis by simp
qed

lemma key_rest_once:
  assumes "0 < n" and "suffix (a # rest) (process_wavefront w n width height)" and "key_op a"
  shows "a \<notin> set rest"
proof -
  from assms(2) obtain Z where "process_wavefront w n width height = Z @ a # rest"
    by (auto simp: suffix_def)
  with distinct_keys_process_wavefront [OF assms(1), of w width height] assms(3)
  show ?thesis by (auto dest: key_once)
qed

subsection \<open>One step\<close>

lemma exec_op_summary:
  assumes "exec_op i t a rest st = Some st'"
  shows "(\<exists>t'. threads st' = (threads st)[i := t'] \<and>
            ((ops t' = rest \<and> (\<forall>c. a = CondWait c \<longrightarrow> pixel_processed st c \<noteq> 0))
             \<or> (\<exists>c. a = CondWait c \<and> ops t' = Lock c # CondWait c # rest)))
       \<and> (pixel_processed st' = pixel_processed st
            \<or> (\<exists>c. a = SetProcessed c \<and> pixel_processed st' = (pixel_processed st)(c := 1)))
       \<and> (\<forall>c. a = SetProcessed c \<longrightarrow> pixel_processed st' c \<noteq> 0)"
  using assms by (cases a) (auto split: if_splits simp: Let_def)

lemma exec_op_flag_mono:
  assumes "exec_op i t a rest st = Some st'" and "pixel_processed st c \<noteq> 0"
  shows "pixel_processed st' c \<noteq> 0"
  using exec_op_summary [OF assms(1)] assms(2) by (auto split: if_splits)

lemma exec_op_flag_new:
  assumes "exec_op i t a rest st = Some st'" and "pixel_processed st c = 0"
    and "pixel_processed st' c \<noteq> 0"
  shows "a = SetProcessed c"
  using exec_op_summary [OF assms(1)] assms(2,3) by (auto split: if_splits)

lemma step_sync_inv:
  assumes n: "0 < n" and inv: "sync_inv n width height st" and st: "step i st = Some st'"
  shows "sync_inv n width height st'"
proof -
  let ?P = "\<lambda>k. process_wavefront (int k) n width height"
  from st obtain a rest where i: "i < length (threads st)"
    and hd: "ops (threads st ! i) = a # rest"
    and ex: "exec_op i (threads st ! i) a rest st = Some st'"
    by (rule step_SomeE)
  from inv have len: "length (threads st) = nat n"
    and I1: "\<And>k. k < nat n \<Longrightarrow> suffix (ops (threads st ! k)) (?P k)"
    and I2: "\<And>k c. k < nat n \<Longrightarrow> pixel_processed st c \<noteq> 0
              \<Longrightarrow> SetProcessed c \<notin> set (ops (threads st ! k))"
    and I3: "\<And>k t. k < nat n \<Longrightarrow> past (?P k) (CondWait t) (ops (threads st ! k))
              \<Longrightarrow> pixel_processed st t \<noteq> 0"
    and I4: "\<And>k c. k < nat n \<Longrightarrow> past (?P k) (SetProcessed c) (ops (threads st ! k))
              \<Longrightarrow> pixel_processed st c \<noteq> 0"
    unfolding sync_inv_def by blast+
  from i len have in': "i < nat n" by simp
  note sm = exec_op_summary [OF ex]
  from sm obtain t' where th: "threads st' = (threads st)[i := t']"
    and cases: "(ops t' = rest \<and> (\<forall>c. a = CondWait c \<longrightarrow> pixel_processed st c \<noteq> 0))
             \<or> (\<exists>c. a = CondWait c \<and> ops t' = Lock c # CondWait c # rest)"
    by blast
  have other: "threads st' ! k = threads st ! k" if "k \<noteq> i" for k
    using that th by simp
  have self: "threads st' ! i = t'" using th i by simp
  have suf: "suffix (a # rest) (?P i)" using I1 [OF in'] hd by simp
  have sub: "set (ops t') \<subseteq> set (a # rest) \<union> {b. \<not> key_op b}"
    using cases by (auto simp: key_op_def)
  have mono: "pixel_processed st' c \<noteq> 0" if "pixel_processed st c \<noteq> 0" for c
    using ex that by (rule exec_op_flag_mono)
  have len': "length (threads st') = nat n" using th len by simp
  have J1: "suffix (ops (threads st' ! k)) (?P k)" if k: "k < nat n" for k
  proof (cases "k = i")
    case False
    with I1 [OF k] other show ?thesis by simp
  next
    case True
    from cases show ?thesis
    proof
      assume "ops t' = rest \<and> (\<forall>c. a = CondWait c \<longrightarrow> pixel_processed st c \<noteq> 0)"
      with suf True self show ?thesis by (auto dest: suffix_ConsD)
    next
      assume "\<exists>c. a = CondWait c \<and> ops t' = Lock c # CondWait c # rest"
      then obtain c where "a = CondWait c" "ops t' = Lock c # CondWait c # rest" by blast
      with suf True self suffix_retry [OF guarded_process_wavefront, of c rest "int i" n width height]
      show ?thesis by simp
    qed
  qed
  have J2: "SetProcessed c \<notin> set (ops (threads st' ! k))"
    if k: "k < nat n" and f: "pixel_processed st' c \<noteq> 0" for k c
  proof (cases "pixel_processed st c = 0")
    case False
    show ?thesis
    proof (cases "k = i")
      case False
      with I2 [OF k \<open>pixel_processed st c \<noteq> 0\<close>] other show ?thesis by simp
    next
      case True
      from I2 [OF in' \<open>pixel_processed st c \<noteq> 0\<close>] hd
      have "SetProcessed c \<notin> set (a # rest)" by simp
      with sub have "SetProcessed c \<notin> set (ops t')" by (auto simp: key_op_def)
      with True self show ?thesis by simp
    qed
  next
    case True
    with ex f have a: "a = SetProcessed c" by (intro exec_op_flag_new)
    with cases have r: "ops t' = rest" by auto
    have key: "key_op (SetProcessed c)" by (simp add: key_op_def)
    show ?thesis
    proof (cases "k = i")
      case True
      from key_rest_once [OF n suf [unfolded a] key] r True self show ?thesis by simp
    next
      case False
      show ?thesis
      proof
        assume "SetProcessed c \<in> set (ops (threads st' ! k))"
        with other [OF False] have "SetProcessed c \<in> set (ops (threads st ! k))" by simp
        with I1 [OF k] have "SetProcessed c \<in> set (?P k)"
          by (auto dest: set_mono_suffix)
        from key_owner_process_wavefront [OF n this key]
        have "(fst c + snd c) mod n = int k" by simp
        moreover have "SetProcessed c \<in> set (?P i)"
          using suf a by (auto dest: set_mono_suffix)
        from key_owner_process_wavefront [OF n this key]
        have "(fst c + snd c) mod n = int i" by simp
        ultimately show False using False by simp
      qed
    qed
  qed
  have J34: "pixel_processed st' c \<noteq> 0"
    if k: "k < nat n" and b: "b = CondWait c \<or> b = SetProcessed c"
      and p: "past (?P k) b (ops (threads st' ! k))" for k b c
  proof -
    have old: "pixel_processed st c \<noteq> 0" if "past (?P k) b (ops (threads st ! k))"
      using b that I3 [OF k, of c] I4 [OF k, of c] by blast
    show ?thesis
    proof (cases "k = i")
      case False
      with p other have "past (?P k) b (ops (threads st ! k))" by simp
      then show ?thesis by (intro mono old)
    next
      case True
      from cases show ?thesis
      proof
        assume adv: "ops t' = rest \<and> (\<forall>c. a = CondWait c \<longrightarrow> pixel_processed st c \<noteq> 0)"
        with p True self have "past (?P i) b rest" by simp
        from past_step [OF this suf] have "past (?P i) b (a # rest) \<or> a = b" .
        then show ?thesis
        proof
          assume "past (?P i) b (a # rest)"
          with True hd have "past (?P k) b (ops (threads st ! k))" by simp
          then show ?thesis by (intro mono old)
        next
          assume ab: "a = b"
          from b show ?thesis
          proof
            assume "b = CondWait c"
            with ab adv have "pixel_processed st c \<noteq> 0" by blast
            then show ?thesis by (rule mono)
          next
            assume "b = SetProcessed c"
            with ab sm show ?thesis by blast
          qed
        qed
      next
        assume "\<exists>c. a = CondWait c \<and> ops t' = Lock c # CondWait c # rest"
        then obtain c' where a: "a = CondWait c'" and r: "ops t' = Lock c' # CondWait c' # rest"
          by blast
        have "suffix (a # rest) (ops t')" unfolding a r by (simp add: suffix_def)
        with p True self have "past (?P i) b (a # rest)" by (auto intro: past_suffix)
        with True hd have "past (?P k) b (ops (threads st ! k))" by simp
        then show ?thesis by (intro mono old)
      qed
    qed
  qed
  show ?thesis
    unfolding sync_inv_def using len' J1 J2 J34 by blast
qed

lemma run_sync_inv:
  assumes "0 < n"
  shows "run sched st = Some st' \<Longrightarrow> sync_inv n width height st
    \<Longrightarrow> sync_inv n width height st'"
proof (induction sched arbitrary: st)
  case Nil
  then show ?case by simp
next
  case (Cons i sched)
  from Cons.prems(1) obtain st1 where s: "step i st = Some st1" and r: "run sched st1 = Some st'"
    by (auto split: option.splits)
  from step_sync_inv [OF assms Cons.prems(2) s] r show ?case by (rule Cons.IH [rotated])
qed

lemma mt_init_thread:
  assumes "k < nat n"
  shows "threads (mt_init inp out width height n) ! k =
     \<lparr>ops = process_wavefront (int k) n width height, old_pixel = 0, err = 0\<rparr>"
proof -
  have "[0..n - 1] ! k = int k" using assms by (simp add: nth_upto)
  with assms show ?thesis by (simp add: mt_init_def)
qed

lemma mt_init_sync_inv:
  assumes "0 < n"
  shows "sync_inv n width height (mt_init inp out width height n)"
proof -
  have "length (threads (mt_init inp out width height n)) = nat n"
    by (simp add: mt_init_def)
  moreover have "pixel_processed (mt_init inp out width height n) c = 0" for c
    by (simp add: mt_init_def)
  ultimately show ?thesis
    unfolding sync_inv_def by (simp add: mt_init_thread not_past_self)
qed

lemma reachable_sync_inv:
  assumes "0 < n" and "run sched (mt_init inp out width height n) = Some st"
  shows "sync_inv n width height st"
  using run_sync_inv [OF assms(1) assms(2) mt_init_sync_inv [OF assms(1)]] .

subsection \<open>Owners\<close>

lemma owner_props:
  assumes "0 < n" and "in_grid width height c"
  shows "owner n c < nat n" and "int (owner n c) = (fst c + snd c) mod n"
    and "c \<in> set (spec_visits (int (owner n c)) n width height)"
proof -
  have m: "0 \<le> (fst c + snd c) mod n" "(fst c + snd c) mod n < n" using assms(1) by simp_all
  then show "owner n c < nat n" by (simp add: owner_def nat_less_iff)
  from m show e: "int (owner n c) = (fst c + snd c) mod n" by (simp add: owner_def)
  show "c \<in> set (spec_visits (int (owner n c)) n width height)"
    unfolding set_spec_visits [OF assms(1)] e using assms(2) by (cases c) simp
qed

lemma owner_eq:
  assumes "0 < n" and "(fst c + snd c) mod n = int k"
  shows "owner n c = k"
  using assms by (simp add: owner_def)

lemma prog_split:
  assumes "0 < n" and "c \<in> set (spec_visits w n width height)"
  shows "\<exists>v1 v2. process_wavefront w n width height =
       concat (map (pixel_ops width height) v1) @ pixel_ops width height c
         @ concat (map (pixel_ops width height) v2)
    \<and> (\<forall>q \<in> set v1. visit_before q c) \<and> (\<forall>q \<in> set v2. visit_before c q)"
proof -
  from visits_split [OF assms(2)] obtain v1 v2 where
    v: "spec_visits w n width height = v1 @ c # v2"
    and b: "\<forall>q \<in> set v1. visit_before q c" "\<forall>q \<in> set v2. visit_before c q"
    by blast
  have "process_wavefront w n width height =
       concat (map (pixel_ops width height) v1) @ pixel_ops width height c
         @ concat (map (pixel_ops width height) v2)"
    unfolding process_wavefront_visits [OF assms(1)] v by simp
  with b show ?thesis by blast
qed

subsection \<open>What a set flag tells\<close>

lemma flag_done:
  assumes n: "0 < n" and inv: "sync_inv n width height st"
    and g: "in_grid width height p" and f: "pixel_processed st p \<noteq> 0"
    and key: "key_op a" and v: "visit_of a = p \<or> visit_before (visit_of a) p"
  shows "a \<notin> set (ops (threads st ! owner n p))"
proof
  let ?k = "owner n p"
  let ?B = "\<lambda>vs. concat (map (pixel_ops width height) vs)"
  assume a: "a \<in> set (ops (threads st ! ?k))"
  note o = owner_props [OF n g]
  from inv o(1) have suf: "suffix (ops (threads st ! ?k)) (process_wavefront (int ?k) n width height)"
    and nset: "SetProcessed p \<notin> set (ops (threads st ! ?k))"
    using f unfolding sync_inv_def by blast+
  from prog_split [OF n o(3)] obtain v1 v2 where
    P: "process_wavefront (int ?k) n width height = ?B v1 @ pixel_ops width height p @ ?B v2"
    and v2: "\<forall>q \<in> set v2. visit_before p q"
    by blast
  from pixel_ops_signal [of width height p] obtain X where
    X: "pixel_ops width height p = X @ SetProcessed p # [Broadcast p, Unlock p]" by blast
  have "process_wavefront (int ?k) n width height =
      (?B v1 @ X) @ SetProcessed p # ([Broadcast p, Unlock p] @ ?B v2)"
    unfolding P X by simp
  with suf have "suffix (ops (threads st ! ?k))
      ((?B v1 @ X) @ SetProcessed p # ([Broadcast p, Unlock p] @ ?B v2))" by simp
  from suffix_after_absent [OF this nset]
  have "suffix (ops (threads st ! ?k)) ([Broadcast p, Unlock p] @ ?B v2)" .
  from set_mono_suffix [OF this] a have "a \<in> set ([Broadcast p, Unlock p] @ ?B v2)"
    by blast
  with key have "a \<in> set (?B v2)" by (auto simp: key_op_def)
  from visit_of_visits [OF this key] v2 have "visit_before p (visit_of a)" by blast
  with v show False by (auto simp: visit_before_irrefl dest: visit_before_asym)
qed

lemma flag_waits:
  assumes n: "0 < n" and inv: "sync_inv n width height st"
    and g: "in_grid width height p" and f: "pixel_processed st p \<noteq> 0"
    and q: "q \<in> set (spec_visits (int (owner n p)) n width height)"
    and v: "q = p \<or> visit_before q p"
    and t: "t \<in> set (wait_targets width height q)"
  shows "pixel_processed st t \<noteq> 0"
proof -
  let ?k = "owner n p"
  let ?B = "\<lambda>vs. concat (map (pixel_ops width height) vs)"
  note o = owner_props [OF n g]
  have "key_op (SetProcessed q)" "visit_of (SetProcessed q) = p \<or> visit_before (visit_of (SetProcessed q)) p"
    using v by (simp_all add: key_op_def)
  from flag_done [OF n inv g f this]
  have nset: "SetProcessed q \<notin> set (ops (threads st ! ?k))" .
  from inv o(1) have suf: "suffix (ops (threads st ! ?k)) (process_wavefront (int ?k) n width height)"
    and I3: "past (process_wavefront (int ?k) n width height) (CondWait t) (ops (threads st ! ?k))
       \<Longrightarrow> pixel_processed st t \<noteq> 0"
    unfolding sync_inv_def by blast+
  from prog_split [OF n q] obtain u1 u2 where
    P: "process_wavefront (int ?k) n width height = ?B u1 @ pixel_ops width height q @ ?B u2"
    by blast
  from pixel_ops_wait [OF t] obtain A1 A2 where
    A: "pixel_ops width height q = A1 @ CondWait t # A2" and s: "SetProcessed q \<in> set A2"
    by blast
  have P': "process_wavefront (int ?k) n width height = (?B u1 @ A1) @ CondWait t # (A2 @ ?B u2)"
    unfolding P A by simp
  then have "process_wavefront (int ?k) n width height = (?B u1 @ A1 @ [CondWait t]) @ (A2 @ ?B u2)"
    by simp
  with suf have "suffix (ops (threads st ! ?k)) ((?B u1 @ A1 @ [CondWait t]) @ (A2 @ ?B u2))"
    by simp
  moreover have "SetProcessed q \<in> set (A2 @ ?B u2)" using s by simp
  ultimately have "suffix (ops (threads st ! ?k)) (A2 @ ?B u2)"
    using nset by (rule suffix_part_absent)
  with P' have "past (process_wavefront (int ?k) n width height) (CondWait t) (ops (threads st ! ?k))"
    by (rule pastI)
  then show ?thesis by (rule I3)
qed

subsection \<open>The instant of the read\<close>

lemma reader_waits:
  assumes n: "0 < n" and inv: "sync_inv n width height st" and k: "k < nat n"
    and hd: "ops (threads st ! k) = ReadWork c # rest"
  shows "in_grid width height c" and "owner n c = k"
    and "\<And>t. t \<in> set (wait_targets width height c) \<Longrightarrow> pixel_processed st t \<noteq> 0"
proof -
  let ?P = "process_wavefront (int k) n width height"
  let ?B = "\<lambda>vs. concat (map (pixel_ops width height) vs)"
  have key: "key_op (ReadWork c)" by (simp add: key_op_def)
  from inv k have suf: "suffix (ops (threads st ! k)) ?P"
    and I3: "\<And>t. past ?P (CondWait t) (ops (threads st ! k)) \<Longrightarrow> pixel_processed st t \<noteq> 0"
    unfolding sync_inv_def by blast+
  from suf hd have mem: "ReadWork c \<in> set ?P" by (auto dest: set_mono_suffix)
  from key_owner_process_wavefront [OF n mem key]
  show g: "in_grid width height c" and m: "owner n c = k"
    using n by (simp_all add: owner_eq)
  from key_visit_process_wavefront [OF n mem key]
  have cv: "c \<in> set (spec_visits (int k) n width height)" by simp
  fix t assume t: "t \<in> set (wait_targets width height c)"
  from prog_split [OF n cv] obtain u1 u2 where
    P: "?P = ?B u1 @ pixel_ops width height c @ ?B u2"
    and u1: "\<forall>q \<in> set u1. visit_before q c"
    by blast
  from pixel_ops_wait [OF t] obtain A1 A2 where
    A: "pixel_ops width height c = A1 @ CondWait t # A2"
    and r1: "ReadWork c \<notin> set A1" and r2: "ReadWork c \<in> set A2"
    by blast
  have "ReadWork c \<notin> set (?B u1)"
  proof
    assume "ReadWork c \<in> set (?B u1)"
    from visit_of_visits [OF this key] u1 have "visit_before c c" by simp
    then show False by (simp add: visit_before_irrefl)
  qed
  with r1 have nl: "ReadWork c \<notin> set (?B u1 @ A1 @ [CondWait t])" by simp
  have P': "?P = (?B u1 @ A1) @ CondWait t # (A2 @ ?B u2)"
    unfolding P A by simp
  then have "?P = (?B u1 @ A1 @ [CondWait t]) @ (A2 @ ?B u2)" by simp
  with suf hd have sf: "suffix (ReadWork c # rest) ((?B u1 @ A1 @ [CondWait t]) @ (A2 @ ?B u2))"
    by simp
  have "ReadWork c \<in> set (A2 @ ?B u2)" using r2 by simp
  with sf nl have "suffix (ReadWork c # rest) (A2 @ ?B u2)"
    by (rule suffix_part_head)
  with P' have "past ?P (CondWait t) (ReadWork c # rest)"
    by (rule pastI)
  with hd have "past ?P (CondWait t) (ops (threads st ! k))" by simp
  then show "pixel_processed st t \<noteq> 0" by (rule I3)
qed

lemma wait_targets_iff:
  "t \<in> set (wait_targets width height (y, x)) \<longleftrightarrow>
     (t = (y - 1, x + 1) \<or> t = (y, x - 1)) \<and> in_grid width height t"
  by (auto simp: wait_targets_def)

lemma addwork_source:
  assumes "AddWork (ty, tx) w \<in> set (pixel_ops width height (qy, qx))"
  shows "(w = 7 \<and> qy = ty \<and> qx = tx - 1) \<or> (w = 3 \<and> qy = ty - 1 \<and> qx = tx + 1)
       \<or> (w = 5 \<and> qy = ty - 1 \<and> qx = tx) \<or> (w = 1 \<and> qy = ty - 1 \<and> qx = tx - 1)"
  using assms
  by (auto simp: pixel_ops_def await_ops_def deposit_ops_def signal_ops_def split: if_splits)

lemma owner_same_diagonal: "fst a + snd a = fst b + snd b \<Longrightarrow> owner n a = owner n b"
  by (simp add: owner_def)

lemma read_sees_deposits:
  assumes n: "0 < n" and w2: "2 \<le> width" and inv: "sync_inv n width height st"
    and k: "k < nat n" and hd: "ops (threads st ! k) = ReadWork c # rest"
  shows "\<not> deposit_pending st c"
proof
  assume "deposit_pending st c"
  then obtain j w where j: "j < length (threads st)"
    and a: "AddWork c w \<in> set (ops (threads st ! j))"
    unfolding deposit_pending_def by blast
  obtain y x where c: "c = (y, x)" by (cases c)
  let ?a = "AddWork (y, x) w"
  have key: "key_op ?a" by (simp add: key_op_def)
  from inv have len: "length (threads st) = nat n" unfolding sync_inv_def by blast
  with j have jn: "j < nat n" by simp
  from inv jn have suf: "suffix (ops (threads st ! j)) (process_wavefront (int j) n width height)"
    unfolding sync_inv_def by blast
  with a c have mem: "?a \<in> set (process_wavefront (int j) n width height)"
    by (auto dest: set_mono_suffix)
  then obtain q where qv: "q \<in> set (spec_visits (int j) n width height)"
    and aq: "?a \<in> set (pixel_ops width height q)"
    unfolding process_wavefront_visits [OF n] by auto
  from visit_of_pixel_ops [OF aq key] have vq: "visit_of ?a = q" .
  from key_owner_process_wavefront [OF n mem key] vq
  have gq: "in_grid width height q" and oq: "owner n q = j"
    using n by (simp_all add: owner_eq)
  obtain qy qx where q: "q = (qy, qx)" by (cases q)
  note src = addwork_source [OF aq [unfolded q]]
  note rd = reader_waits [OF n inv k hd]
  from rd(1) c have gc: "in_grid width height (y, x)" by simp
  have flag: "pixel_processed st t \<noteq> 0"
    if "t = (y - 1, x + 1) \<or> t = (y, x - 1)" "in_grid width height t" for t
    using rd(3) [of t] that unfolding c wait_targets_iff by blast
  have finished_q: False if "pixel_processed st q \<noteq> 0"
    using flag_done [OF n inv gq that key] vq oq a c by simp
  from src consider (left) "w = 7" "q = (y, x - 1)" | (upright) "w = 3" "q = (y - 1, x + 1)"
    | (up) "w = 5" "q = (y - 1, x)" | (upleft) "w = 1" "q = (y - 1, x - 1)"
    using q by auto
  then show False
  proof cases
    case left
    with gq flag show False by (intro finished_q) simp
  next
    case upright
    with gq flag show False by (intro finished_q) simp
  next
    case up
    show False
    proof (cases "1 \<le> x")
      case True
      let ?p = "(y, x - 1)"
      have gp: "in_grid width height ?p" using gc True by (simp add: in_grid_def)
      then have fp: "pixel_processed st ?p \<noteq> 0" by (intro flag) simp
      have "visit_of ?a = ?p \<or> visit_before (visit_of ?a) ?p"
        unfolding vq up by (simp add: visit_before_def)
      from flag_done [OF n inv gp fp key this]
      have "?a \<notin> set (ops (threads st ! owner n ?p))" .
      moreover have "owner n ?p = j"
        using oq up owner_same_diagonal [of ?p q n] by simp
      ultimately show False using a c by simp
    next
      case False
      with gc have x0: "x = 0" by (simp add: in_grid_def)
      let ?t = "(y - 1, 1)"
      have gt: "in_grid width height ?t" using gq up w2 x0 by (simp add: in_grid_def)
      then have ft: "pixel_processed st ?t \<noteq> 0" using x0 by (intro flag) simp
      have "?t \<in> set (spec_visits (int (owner n ?t)) n width height)"
        using owner_props(3) [OF n gt] .
      moreover have "q \<in> set (wait_targets width height ?t)"
        unfolding wait_targets_iff using up x0 gq by simp
      ultimately have "pixel_processed st q \<noteq> 0"
        using flag_waits [OF n inv gt ft, of ?t q] by blast
      then show False by (rule finished_q)
    qed
  next
    case upleft
    from gq upleft have x1: "1 \<le> x" "1 \<le> y" by (simp_all add: in_grid_def)
    let ?p = "(y, x - 1)"
    let ?q' = "(y - 1, x)"
    have gp: "in_grid width height ?p" using gc x1 by (simp add: in_grid_def)
    then have fp: "pixel_processed st ?p \<noteq> 0" by (intro flag) simp
    have gq': "in_grid width height ?q'" using gc x1 by (simp add: in_grid_def)
    have "owner n ?q' = owner n ?p" by (rule owner_same_diagonal) simp
    with owner_props(3) [OF n gq']
    have "?q' \<in> set (spec_visits (int (owner n ?p)) n width height)" by simp
    moreover have "?q' = ?p \<or> visit_before ?q' ?p" by (simp add: visit_before_def)
    moreover have "q \<in> set (wait_targets width height ?q')"
      unfolding wait_targets_iff using upleft gq by simp
    ultimately have "pixel_processed st q \<noteq> 0"
      using flag_waits [OF n inv gp fp, of ?q' q] by blast
    then show False by (rule finished_q)
  qed
qed

subsection \<open>Mutexes in the shared state\<close>

lemma lock_trace_hd: "lock_trace h (a # rest) = (a, h) # tl (lock_trace h (a # rest))"
  by (cases a) simp_all

lemma discipline_at:
  assumes "list_all lock_discipline (lock_trace [] P)" and "P = Z @ a # rest"
  shows "lock_discipline (a, held_after [] Z)"
proof -
  have "lock_trace [] P = lock_trace [] Z @ lock_trace (held_after [] Z) (a # rest)"
    unfolding assms(2) by (rule lock_trace_append)
  also have "\<dots> = lock_trace [] Z @ (a, held_after [] Z) # tl (lock_trace (held_after [] Z) (a # rest))"
    using lock_trace_hd [of "held_after [] Z" a rest] by simp
  finally show ?thesis using assms(1) by simp
qed

lemma worker_discipline_at:
  assumes "process_wavefront w n width height = Z @ a # rest"
  shows "lock_discipline (a, held_after [] Z)"
  using balanced_process_wavefront [of w n width height] assms
  by (auto simp: balanced_def intro: discipline_at)

lemma exec_op_mutexes:
  assumes "exec_op i t a rest st = Some st'"
  shows "pixel_mutexes st' =
      (case a of Lock c \<Rightarrow> (pixel_mutexes st)(c := Some i)
               | Unlock c \<Rightarrow> (pixel_mutexes st)(c := None)
               | CondWait c \<Rightarrow> if pixel_processed st c \<noteq> 0 then pixel_mutexes st
                               else (pixel_mutexes st)(c := None)
               | _ \<Rightarrow> pixel_mutexes st)"
    and "\<And>c. a = Lock c \<Longrightarrow> pixel_mutexes st c = None"
    and "\<And>c. a = Unlock c \<or> a = CondWait c \<Longrightarrow> pixel_mutexes st c = Some i"
    and "\<And>c. a = CondWait c \<Longrightarrow> pixel_processed st c = 0
           \<Longrightarrow> \<exists>t'. threads st' = (threads st)[i := t'] \<and> ops t' = Lock c # CondWait c # rest"
    and "(\<forall>c. a = CondWait c \<longrightarrow> pixel_processed st c \<noteq> 0)
           \<Longrightarrow> \<exists>t'. threads st' = (threads st)[i := t'] \<and> ops t' = rest"
  using assms by (cases a; auto split: if_splits simp: Let_def)+

lemma step_lock_inv:
  assumes inv: "lock_inv n width height st" and st: "step i st = Some st'"
  shows "lock_inv n width height st'"
proof -
  let ?P = "\<lambda>k. process_wavefront (int k) n width height"
  from st obtain a rest where i: "i < length (threads st)"
    and hd: "ops (threads st ! i) = a # rest"
    and ex: "exec_op i (threads st ! i) a rest st = Some st'"
    by (rule step_SomeE)
  from inv have len: "length (threads st) = nat n"
    and L: "\<And>k. k < nat n \<Longrightarrow> \<exists>Z. ?P k = Z @ ops (threads st ! k)
             \<and> (\<forall>t. (pixel_mutexes st t = Some k) = (t \<in> set (held_after [] Z)))"
    unfolding lock_inv_def by blast+
  from i len have in': "i < nat n" by simp
  from L [OF in'] hd obtain Z where Z: "?P i = Z @ a # rest"
    and H: "\<And>t. (pixel_mutexes st t = Some i) = (t \<in> set (held_after [] Z))"
    by auto
  note d = worker_discipline_at [OF Z]
  note m = exec_op_mutexes [OF ex]
  from exec_op_summary [OF ex] obtain t' where th: "threads st' = (threads st)[i := t']"
    by blast
  have len': "length (threads st') = nat n" using th len by simp
  have other: "\<exists>Z. ?P k = Z @ ops (threads st' ! k)
             \<and> (\<forall>t. (pixel_mutexes st' t = Some k) = (t \<in> set (held_after [] Z)))"
    if k: "k < nat n" and ki: "k \<noteq> i" for k
  proof -
    from L [OF k] obtain Zk where Zk: "?P k = Zk @ ops (threads st ! k)"
      and Hk: "\<And>t. (pixel_mutexes st t = Some k) = (t \<in> set (held_after [] Zk))"
      by blast
    have same: "threads st' ! k = threads st ! k" using th ki by simp
    have "(pixel_mutexes st' t = Some k) = (t \<in> set (held_after [] Zk))" for t
    proof (cases a)
      case (Lock c)
      with m(1,2) have "pixel_mutexes st' = (pixel_mutexes st)(c := Some i)"
        "pixel_mutexes st c = None" by simp_all
      with Hk [of t] Hk [of c] ki show ?thesis by (cases "t = c") auto
    next
      case (Unlock c)
      with m(1,3) have "pixel_mutexes st' = (pixel_mutexes st)(c := None)"
        "pixel_mutexes st c = Some i" by simp_all
      with Hk [of t] Hk [of c] ki show ?thesis by (cases "t = c") auto
    next
      case (CondWait c)
      with m(1,3) have "pixel_mutexes st' = pixel_mutexes st
          \<or> pixel_mutexes st' = (pixel_mutexes st)(c := None)"
        "pixel_mutexes st c = Some i" by (simp_all split: if_splits)
      with Hk [of t] Hk [of c] ki show ?thesis by (cases "t = c") auto
    qed (use m(1) Hk [of t] in simp_all)
    with Zk same show ?thesis by auto
  qed
  have self: "\<exists>Z. ?P i = Z @ ops (threads st' ! i)
             \<and> (\<forall>t. (pixel_mutexes st' t = Some i) = (t \<in> set (held_after [] Z)))"
  proof (cases "\<exists>c. a = CondWait c \<and> pixel_processed st c = 0")
    case True
    then obtain c where a: "a = CondWait c" and f: "pixel_processed st c = 0" by blast
    from m(4) [OF a f] obtain t'' where "threads st' = (threads st)[i := t'']"
      and o: "ops t'' = Lock c # CondWait c # rest" by blast
    with i have o': "ops (threads st' ! i) = Lock c # CondWait c # rest" by simp
    from guarded_wait [OF guarded_process_wavefront Z [unfolded a]]
    obtain Z' where Z': "Z = Z' @ [Lock c]" by blast
    with Z a have P': "?P i = Z' @ Lock c # CondWait c # rest" by simp
    from worker_discipline_at [OF P'] have h0: "held_after [] Z' = []"
      by (simp add: lock_discipline_def)
    from m(1) a f have mu: "pixel_mutexes st' = (pixel_mutexes st)(c := None)" by simp
    have hz: "held_after [] Z = [c]" unfolding Z' by (simp add: held_after_append h0)
    have "(pixel_mutexes st' t = Some i) = (t \<in> set (held_after [] Z'))" for t
      using H [of t] hz h0 mu by (cases "t = c") auto
    with P' o' show ?thesis by auto
  next
    case False
    then have "\<forall>c. a = CondWait c \<longrightarrow> pixel_processed st c \<noteq> 0" by blast
    from m(5) [OF this] obtain t'' where "threads st' = (threads st)[i := t'']"
      and o: "ops t'' = rest" by blast
    with i have o': "ops (threads st' ! i) = rest" by simp
    have P': "?P i = (Z @ [a]) @ rest" using Z by simp
    have ha: "held_after [] (Z @ [a]) = held_after (held_after [] Z) [a]"
      by (rule held_after_append)
    have "(pixel_mutexes st' t = Some i) = (t \<in> set (held_after [] (Z @ [a])))" for t
    proof (cases a)
      case (Lock c)
      with d have h: "held_after [] Z = []" by (simp add: lock_discipline_def)
      from Lock m(1) have "pixel_mutexes st' = (pixel_mutexes st)(c := Some i)" by simp
      with H [of t] h Lock show ?thesis unfolding ha by (cases "t = c") auto
    next
      case (Unlock c)
      with d have h: "held_after [] Z = [c]" by (simp add: lock_discipline_def)
      from Unlock m(1) have "pixel_mutexes st' = (pixel_mutexes st)(c := None)" by simp
      with H [of t] h Unlock show ?thesis unfolding ha by (cases "t = c") auto
    next
      case (CondWait c)
      with False have "pixel_processed st c \<noteq> 0" by blast
      with CondWait m(1) have "pixel_mutexes st' = pixel_mutexes st" by simp
      with H [of t] CondWait show ?thesis unfolding ha by simp
    qed (use m(1) H [of t] in \<open>simp_all add: held_after_append\<close>)
    with P' o' show ?thesis by blast
  qed
  show ?thesis
    unfolding lock_inv_def using len' other self by (metis (no_types))
qed

lemma run_lock_inv:
  "run sched st = Some st' \<Longrightarrow> lock_inv n width height st \<Longrightarrow> lock_inv n width height st'"
proof (induction sched arbitrary: st)
  case Nil
  then show ?case by simp
next
  case (Cons i sched)
  from Cons.prems(1) obtain st1 where s: "step i st = Some st1" and r: "run sched st1 = Some st'"
    by (auto split: option.splits)
  from step_lock_inv [OF Cons.prems(2) s] r show ?case by (rule Cons.IH [rotated])
qed

lemma mt_init_lock_inv: "lock_inv n width height (mt_init inp out width height n)"
proof -
  have "length (threads (mt_init inp out width height n)) = nat n"
    by (simp add: mt_init_def)
  moreover have "pixel_mutexes (mt_init inp out width height n) t = None" for t
    by (simp add: mt_init_def)
  moreover have "process_wavefront (int k) n width height =
      [] @ ops (threads (mt_init inp out width height n) ! k)" if "k < nat n" for k
    using that by (simp add: mt_init_thread)
  ultimately show ?thesis
    unfolding lock_inv_def by (metis empty_iff held_after.simps(1) list.set(1) option.distinct(1))
qed

lemma holds_at_head:
  assumes "run sched (mt_init inp out width height n) = Some st"
    and "k < length (threads st)" and "ops (threads st ! k) = a # rest"
  shows "\<exists>held. lock_discipline (a, held) \<and> (\<forall>t. (pixel_mutexes st t = Some k) = (t \<in> set held))"
proof -
  from run_lock_inv [OF assms(1) mt_init_lock_inv]
  have inv: "lock_inv n width height st" .
  with assms(2) have "k < nat n" unfolding lock_inv_def by simp
  with inv assms(3) obtain Z where Z: "process_wavefront (int k) n width height = Z @ a # rest"
    and H: "\<forall>t. (pixel_mutexes st t = Some k) = (t \<in> set (held_after [] Z))"
    unfolding lock_inv_def by (metis (no_types))
  from worker_discipline_at [OF Z] H show ?thesis by blast
qed

subsection \<open>Flags and deposits\<close>


lemma run_length:
  assumes "run sched (mt_init inp out width height n) = Some st"
  shows "length (threads st) = nat n"
  using run_lock_inv [OF assms mt_init_lock_inv] unfolding lock_inv_def by blast

lemma thread_index:
  assumes "run sched (mt_init inp out width height n) = Some st" and "k < length (threads st)"
  shows "0 < n" and "k < nat n"
  using run_length [OF assms(1)] assms(2) by simp_all




lemma deposit_in_program:
  assumes n: "0 < n" and q: "in_grid width height q" and c: "in_grid width height c"
    and k: "(c, w) \<in> set (kernel_targets q)"
  shows "AddWork c w \<in> set (process_wavefront (int (owner n q)) n width height)"
proof -
  obtain y x where yx: "q = (y, x)" by (cases q)
  have "AddWork c w \<in> set (map (\<lambda>(t, w). AddWork t w)
      (filter (\<lambda>(t, w). in_grid width height t) (kernel_targets (y, x))))"
    using c k yx by force
  then have "AddWork c w \<in> set (filter is_deposit (pixel_ops width height (y, x)))"
    using deposits_of_pixel_ops [OF q [unfolded yx]] by simp
  then have "AddWork c w \<in> set (pixel_ops width height q)" using yx by simp
  with owner_props(3) [OF n q] show ?thesis
    unfolding process_wavefront_visits [OF n] by auto
qed

lemma run_before_last_read:
  "\<exists>st rest. run before_last_read (mt_init (\<lambda>c. 100) (\<lambda>c. 7) 2 2 2) = Some st
     \<and> 0 < length (threads st) \<and> ops (threads st ! 0) = ReadWork (1, 1) # rest"
proof -
  have "(case run before_last_read (mt_init (\<lambda>c. 100) (\<lambda>c. 7) 2 2 2) of
           None \<Rightarrow> False
         | Some st \<Rightarrow> 0 < length (threads st)
             \<and> (case ops (threads st ! 0) of [] \<Rightarrow> False
                  | a # rest \<Rightarrow> a = ReadWork (1, 1)))"
    by code_simp
  then show ?thesis by (auto split: option.splits list.splits)
qed


section \<open>The claims\<close>

text \<open>
  Claim C1. For every input grid and every worker count in \<open>{1, 2, 4, 8}\<close>, the output of
  the wavefront engine equals the output of the serial engine on every execution that
  the waits and the locks allow.

  On a grid of one column the guards of lines 203 and 212 are both false at every
  coordinate, so no worker ever waits, and the worker that owns row 1 may read its
  accumulator before the worker that owns row 0 has deposited into it. Evaluated on
  the column \<open>(100, 100)\<close> with two workers: when worker 1 runs to its end before
  worker 0 starts the wavefront engine writes \<open>(0, 0)\<close>, when worker 0 runs first it
  writes \<open>(0, 255)\<close>, and the serial engine writes \<open>(0, 255)\<close>.
\<close>

theorem wavefront_column_race:
  "map_option (\<lambda>res. (res (0, 0), res (1, 0)))
     (dither_image_mt (\<lambda>c. 100) (\<lambda>c. 7) 1 2 2 worker1_first) = Some (0, 0)
   \<and> map_option (\<lambda>res. (res (0, 0), res (1, 0)))
     (dither_image_mt (\<lambda>c. 100) (\<lambda>c. 7) 1 2 2 worker0_first) = Some (0, 255)
   \<and> (dither_image_st (\<lambda>c. 100) (\<lambda>c. 7) 1 2 (0, 0),
       dither_image_st (\<lambda>c. 100) (\<lambda>c. 7) 1 2 (1, 0)) = (0, 255)"
  by code_simp

text \<open>
  Claim C2. For every accumulator value \<open>v\<close> read when a pixel is quantized, by either
  engine, the output level is 255 if \<open>v > 128\<close> and 0 otherwise, and the error is \<open>v\<close>
  minus that level. The step is a total function of \<open>v\<close>: in the serial engines it
  changes the output cell of the coordinate and nothing else, in the wavefront engine
  the output cell and the thread's own \<open>err\<close>; the level stored as an
  \<open>unsigned char\<close> reads back as the same number.
\<close>

theorem quantization_rule:
  "fst (quantize v) = (if v > 128 then 255 else 0)
   \<and> snd (quantize v) = v - fst (quantize v)
   \<and> uint (word_of_int (fst (quantize v)) :: 8 word) = fst (quantize v)
   \<and> st_quantize s c =
       (s\<lparr>output := (output s)(c := word_of_int (fst (quantize (work s c))))\<rparr>,
        snd (quantize (work s c)))
   \<and> ed_quantize s c = st_quantize s c
   \<and> st_pixel width height s c =
       st_propagate width height c (snd (quantize (work s c))) (fst (st_quantize s c))
   \<and> exec_op i t (ReadWork c) rest st =
       Some (st\<lparr>threads := (threads st)[i := t\<lparr>ops := rest, old_pixel := work st c\<rparr>]\<rparr>)
   \<and> exec_op i t (Quantize c) rest st =
       Some (st\<lparr>output := (output st)(c := word_of_int (fst (quantize (old_pixel t)))),
                threads := (threads st)[i := t\<lparr>ops := rest,
                                               err := snd (quantize (old_pixel t))\<rparr>]\<rparr>)"
proof -
  have "fst (quantize v) = (if v > 128 then 255 else 0)"
    and "snd (quantize v) = v - fst (quantize v)"
    by (simp_all add: quantize_def)
  moreover note uint_level [of v] st_quantize_spec [of s c] ed_quantize_eq [of s c]
    st_pixel_stages [of width height s c] exec_quantize_spec [of i t c rest st]
  moreover have "exec_op i t (ReadWork c) rest st =
       Some (st\<lparr>threads := (threads st)[i := t\<lparr>ops := rest, old_pixel := work st c\<rparr>]\<rparr>)"
    by simp
  ultimately show ?thesis by blast
qed

text \<open>
  Claim C4. For a source coordinate \<open>(y, x)\<close> of the grid with error \<open>e\<close>, the
  propagation adds \<open>floor_divide (e * w) 16\<close> to the accumulator of each target
  \<open>(y, x + 1)\<close>, \<open>(y + 1, x - 1)\<close>, \<open>(y + 1, x)\<close>, \<open>(y + 1, x + 1)\<close> that lies in
  the grid, with \<open>w\<close> = 7, 3, 5, 1, and changes no other accumulator and no output
  cell. In the serial engines this is the state after the propagation, run with the
  error of the quantization; in the wavefront
  engine the deposits of the worker at \<open>(y, x)\<close> are exactly these, in this order, and
  each one is such an addition with the thread's \<open>err\<close>.
\<close>

theorem kernel_deposits:
  assumes "in_grid width height (y, x)"
  shows "(\<forall>(t, w) \<in> set (kernel_targets (y, x)). in_grid width height t \<longrightarrow>
            work (st_propagate width height (y, x) e s) t = work s t + floor_divide (e * w) 16)
   \<and> (\<forall>t. \<not> (in_grid width height t \<and> t \<in> fst ` set (kernel_targets (y, x))) \<longrightarrow>
            work (st_propagate width height (y, x) e s) t = work s t)
   \<and> output (st_propagate width height (y, x) e s) = output s
   \<and> work (st_pixel width height s (y, x)) =
       work (st_propagate width height (y, x) (snd (quantize (work s (y, x)))) s)
   \<and> ed_propagate width height (y, x) e s = st_propagate width height (y, x) e s
   \<and> filter is_deposit (pixel_ops width height (y, x)) =
       map (\<lambda>(t, w). AddWork t w)
           (filter (\<lambda>(t, w). in_grid width height t) (kernel_targets (y, x)))
   \<and> exec_op i th (AddWork t' w') rest st =
       Some (st\<lparr>work := (work st)(t' := work st t' + floor_divide (err th * w') 16),
                threads := (threads st)[i := th\<lparr>ops := rest\<rparr>]\<rparr>)"
proof -
  have "\<forall>(t, w) \<in> set (kernel_targets (y, x)). in_grid width height t \<longrightarrow>
            work (st_propagate width height (y, x) e s) t = work s t + floor_divide (e * w) 16"
    using st_propagate_targets [OF assms] by blast
  moreover have "\<forall>t. \<not> (in_grid width height t \<and> t \<in> fst ` set (kernel_targets (y, x))) \<longrightarrow>
            work (st_propagate width height (y, x) e s) t = work s t"
    using st_propagate_others [OF assms] by blast
  moreover note output_st_propagate [of width height "(y, x)" e s]
    work_st_pixel [of width height s y x]
    ed_propagate_eq [of width height "(y, x)" e s] deposits_of_pixel_ops [OF assms]
  moreover have "exec_op i th (AddWork t' w') rest st =
       Some (st\<lparr>work := (work st)(t' := work st t' + floor_divide (err th * w') 16),
                threads := (threads st)[i := th\<lparr>ops := rest\<rparr>]\<rparr>)"
    by simp
  ultimately show ?thesis by blast
qed

text \<open>
  Witness of C4: the corner \<open>(0, 0)\<close> of a 2 by 2 grid with error 100 and every
  accumulator at 50. The target \<open>(1, -1)\<close> is outside the grid and is skipped.
\<close>

theorem kernel_deposits_witness:
  "in_grid 2 2 (0, 0)
   \<and> work (st_propagate 2 2 (0, 0) 100 \<lparr>input = \<lambda>c. 0, work = \<lambda>c. 50, output = \<lambda>c. 0\<rparr>) (0, 1)
       = 50 + floor_divide (100 * 7) 16
   \<and> work (st_propagate 2 2 (0, 0) 100 \<lparr>input = \<lambda>c. 0, work = \<lambda>c. 50, output = \<lambda>c. 0\<rparr>) (1, -1)
       = 50
   \<and> filter is_deposit (pixel_ops 2 2 (0, 0))
       = [AddWork (0, 1) 7, AddWork (1, 0) 5, AddWork (1, 1) 1]"
proof -
  let ?s = "\<lparr>input = \<lambda>c. 0, work = \<lambda>c. 50, output = \<lambda>c. 0\<rparr> :: grids"
  have g: "in_grid 2 2 (0, 0)" by (simp add: in_grid_def)
  note k = kernel_deposits [OF g, of 100 ?s]
  have m: "((0, 1), 7) \<in> set (kernel_targets (0, 0))" "in_grid 2 2 (0, 1)"
    by (simp_all add: kernel_targets_def in_grid_def)
  from k have "\<forall>(t, w) \<in> set (kernel_targets (0, 0)). in_grid 2 2 t \<longrightarrow>
      work (st_propagate 2 2 (0, 0) 100 ?s) t = work ?s t + floor_divide (100 * w) 16"
    by blast
  with m have a: "work (st_propagate 2 2 (0, 0) 100 ?s) (0, 1) = 50 + floor_divide (100 * 7) 16"
    by fastforce
  have n: "\<not> (in_grid 2 2 (1, -1) \<and> (1, -1) \<in> fst ` set (kernel_targets (0, 0)))"
    by (simp add: in_grid_def)
  from k have "\<forall>t. \<not> (in_grid 2 2 t \<and> t \<in> fst ` set (kernel_targets (0, 0))) \<longrightarrow>
      work (st_propagate 2 2 (0, 0) 100 ?s) t = work ?s t"
    by blast
  with n have b: "work (st_propagate 2 2 (0, 0) 100 ?s) (1, -1) = 50" by fastforce
  from k have "filter is_deposit (pixel_ops 2 2 (0, 0)) =
      map (\<lambda>(t, w). AddWork t w) (filter (\<lambda>(t, w). in_grid 2 2 t) (kernel_targets (0, 0)))"
    by blast
  then have c: "filter is_deposit (pixel_ops 2 2 (0, 0))
      = [AddWork (0, 1) 7, AddWork (1, 0) 5, AddWork (1, 1) 1]"
    by (simp add: kernel_targets_def in_grid_def)
  from g a b c show ?thesis by blast
qed

text \<open>
  Claim C5, as stated: in the wavefront engine every access to an accumulator, the
  deposits and the read of the coordinate's own quantization, is made with that
  coordinate's mutex held. The read of line 222 is made with no mutex held: on the
  grid of one cell the single worker starts with it.
\<close>

theorem accumulator_read_unlocked:
  "\<not> list_all access_locked (lock_trace [] (process_wavefront 0 1 1 1))"
  by code_simp

text \<open>
  Claim C5, amended. In the wavefront engine every deposit into a coordinate's
  accumulator is made while the depositing thread holds that coordinate's mutex, and no
  other mutex. The read of a coordinate's own accumulator at its quantization is made
  with no mutex held, after the waits of that coordinate: the flag of every
  predecessor it waits for is set at that instant. On a grid of at least two columns no
  thread then has a deposit into that coordinate ahead: every deposit from a raster-order
  predecessor, each of which is in the program of the worker that owns the predecessor,
  has been made before the read. This holds in every state of every execution.
\<close>

theorem worker_lock_discipline:
  "list_all lock_discipline (lock_trace [] (process_wavefront i n width height))
   \<and> (run sched (mt_init inp out width height n) = Some st \<and> k < length (threads st) \<longrightarrow>
        (\<forall>t w rest. ops (threads st ! k) = AddWork t w # rest \<longrightarrow> pixel_mutexes st t = Some k)
      \<and> (\<forall>c rest. ops (threads st ! k) = ReadWork c # rest \<longrightarrow>
            (\<forall>t. pixel_mutexes st t \<noteq> Some k)
          \<and> (\<forall>t \<in> set (wait_targets width height c). pixel_processed st t \<noteq> 0)
          \<and> (2 \<le> width \<longrightarrow> \<not> deposit_pending st c)))
   \<and> (0 < n \<and> in_grid width height q \<and> in_grid width height c
        \<and> (c, w) \<in> set (kernel_targets q) \<longrightarrow>
        AddWork c w \<in> set (process_wavefront (int (owner n q)) n width height))"
proof -
  have static: "list_all lock_discipline (lock_trace [] (process_wavefront i n width height))"
    using balanced_process_wavefront [of i n width height] by (simp add: balanced_def)
  have dyn: "(\<forall>t w rest. ops (threads st ! k) = AddWork t w # rest \<longrightarrow> pixel_mutexes st t = Some k)
      \<and> (\<forall>c rest. ops (threads st ! k) = ReadWork c # rest \<longrightarrow>
            (\<forall>t. pixel_mutexes st t \<noteq> Some k)
          \<and> (\<forall>t \<in> set (wait_targets width height c). pixel_processed st t \<noteq> 0)
          \<and> (2 \<le> width \<longrightarrow> \<not> deposit_pending st c))"
    if r: "run sched (mt_init inp out width height n) = Some st" and k: "k < length (threads st)"
  proof -
    note idx = thread_index [OF r k]
    note inv = reachable_sync_inv [OF idx(1) r]
    have dep: "pixel_mutexes st t = Some k" if "ops (threads st ! k) = AddWork t w # rest"
      for t w rest
    proof -
      from holds_at_head [OF r k that] obtain held where
        d: "lock_discipline (AddWork t w, held)"
        and H: "\<forall>t'. (pixel_mutexes st t' = Some k) = (t' \<in> set held)" by blast
      from d have "held = [t]" by (simp add: lock_discipline_def)
      moreover from H have "(pixel_mutexes st t = Some k) = (t \<in> set held)" by (rule spec)
      ultimately show ?thesis by simp
    qed
    have rd: "(\<forall>t. pixel_mutexes st t \<noteq> Some k)
          \<and> (\<forall>t \<in> set (wait_targets width height c). pixel_processed st t \<noteq> 0)
          \<and> (2 \<le> width \<longrightarrow> \<not> deposit_pending st c)"
      if h: "ops (threads st ! k) = ReadWork c # rest" for c rest
    proof -
      have "\<forall>t. pixel_mutexes st t \<noteq> Some k"
      proof -
        from holds_at_head [OF r k h] obtain held where
          d: "lock_discipline (ReadWork c, held)"
          and H: "\<forall>t'. (pixel_mutexes st t' = Some k) = (t' \<in> set held)" by blast
        from d have e: "held = []" by (simp add: lock_discipline_def)
        show ?thesis
        proof
          fix t
          from H have "(pixel_mutexes st t = Some k) = (t \<in> set held)" by (rule spec)
          with e show "pixel_mutexes st t \<noteq> Some k" by simp
        qed
      qed
      moreover have "\<forall>t \<in> set (wait_targets width height c). pixel_processed st t \<noteq> 0"
        using reader_waits(3) [OF idx(1) inv idx(2) h] by blast
      moreover have "2 \<le> width \<longrightarrow> \<not> deposit_pending st c"
        using read_sees_deposits [OF idx(1) _ inv idx(2) h] by blast
      ultimately show ?thesis by (intro conjI)
    qed
    have A: "\<forall>t w rest. ops (threads st ! k) = AddWork t w # rest \<longrightarrow> pixel_mutexes st t = Some k"
      by (intro allI impI) (rule dep)
    have B: "\<forall>c rest. ops (threads st ! k) = ReadWork c # rest \<longrightarrow>
            (\<forall>t. pixel_mutexes st t \<noteq> Some k)
          \<and> (\<forall>t \<in> set (wait_targets width height c). pixel_processed st t \<noteq> 0)
          \<and> (2 \<le> width \<longrightarrow> \<not> deposit_pending st c)"
      by (intro allI impI) (rule rd)
    from A B show ?thesis by (rule conjI)
  qed
  have prog: "AddWork c w \<in> set (process_wavefront (int (owner n q)) n width height)"
    if "0 < n" "in_grid width height q" "in_grid width height c"
      "(c, w) \<in> set (kernel_targets q)"
    using that by (rule deposit_in_program)
  have dynI: "run sched (mt_init inp out width height n) = Some st \<and> k < length (threads st) \<longrightarrow>
        (\<forall>t w rest. ops (threads st ! k) = AddWork t w # rest \<longrightarrow> pixel_mutexes st t = Some k)
      \<and> (\<forall>c rest. ops (threads st ! k) = ReadWork c # rest \<longrightarrow>
            (\<forall>t. pixel_mutexes st t \<noteq> Some k)
          \<and> (\<forall>t \<in> set (wait_targets width height c). pixel_processed st t \<noteq> 0)
          \<and> (2 \<le> width \<longrightarrow> \<not> deposit_pending st c))"
  proof
    assume "run sched (mt_init inp out width height n) = Some st \<and> k < length (threads st)"
    then have "run sched (mt_init inp out width height n) = Some st" "k < length (threads st)"
      by simp_all
    then show "(\<forall>t w rest. ops (threads st ! k) = AddWork t w # rest \<longrightarrow> pixel_mutexes st t = Some k)
      \<and> (\<forall>c rest. ops (threads st ! k) = ReadWork c # rest \<longrightarrow>
            (\<forall>t. pixel_mutexes st t \<noteq> Some k)
          \<and> (\<forall>t \<in> set (wait_targets width height c). pixel_processed st t \<noteq> 0)
          \<and> (2 \<le> width \<longrightarrow> \<not> deposit_pending st c))"
      by (rule dyn)
  qed
  have progI: "0 < n \<and> in_grid width height q \<and> in_grid width height c
        \<and> (c, w) \<in> set (kernel_targets q) \<longrightarrow>
        AddWork c w \<in> set (process_wavefront (int (owner n q)) n width height)"
  proof
    assume "0 < n \<and> in_grid width height q \<and> in_grid width height c
        \<and> (c, w) \<in> set (kernel_targets q)"
    then have "0 < n" "in_grid width height q" "in_grid width height c"
      "(c, w) \<in> set (kernel_targets q)" by simp_all
    then show "AddWork c w \<in> set (process_wavefront (int (owner n q)) n width height)"
      by (rule prog)
  qed
  show ?thesis by (rule conjI [OF static conjI [OF dynI progI]])
qed

text \<open>
  Witness of C5: two workers on a 2 by 2 grid, at the instant worker 0 is about to read
  the accumulator of \<open>(1, 1)\<close>, after worker 1 had to wait for \<open>(0, 0)\<close>.
\<close>

theorem worker_lock_discipline_witness:
  "list_all lock_discipline (lock_trace [] (process_wavefront 1 2 2 2))
   \<and> process_wavefront 1 2 2 2 \<noteq> []
   \<and> (\<exists>st rest. run before_last_read (mt_init (\<lambda>c. 100) (\<lambda>c. 7) 2 2 2) = Some st
         \<and> ops (threads st ! 0) = ReadWork (1, 1) # rest
         \<and> (\<forall>t. pixel_mutexes st t \<noteq> Some 0)
         \<and> pixel_processed st (1, 0) \<noteq> 0
         \<and> \<not> deposit_pending st (1, 1))
   \<and> AddWork (1, 1) 1 \<in> set (process_wavefront (int (owner 2 (0, 0))) 2 2 2)"
proof -
  from run_before_last_read obtain st rest where
    r: "run before_last_read (mt_init (\<lambda>c. 100) (\<lambda>c. 7) 2 2 2) = Some st"
    and k: "0 < length (threads st)" and h: "ops (threads st ! 0) = ReadWork (1, 1) # rest"
    by blast
  note t = worker_lock_discipline [of 1 2 2 2 before_last_read "\<lambda>c. 100" "\<lambda>c. 7" st 0
      "(0, 0)" "(1, 1)" 1]
  have ne: "process_wavefront 1 2 2 2 \<noteq> []" by code_simp
  have wt: "(1, 0) \<in> set (wait_targets 2 2 (1, 1))"
    by (simp add: wait_targets_def in_grid_def)
  have kt: "(0::int) < 2 \<and> in_grid 2 2 (0, 0) \<and> in_grid 2 2 (1, 1)
      \<and> ((1, 1), 1) \<in> set (kernel_targets (0, 0))"
    by (simp add: in_grid_def kernel_targets_def)
  from t r k h have "(\<forall>t. pixel_mutexes st t \<noteq> Some 0)
      \<and> (\<forall>t \<in> set (wait_targets 2 2 (1, 1)). pixel_processed st t \<noteq> 0)
      \<and> ((2::int) \<le> 2 \<longrightarrow> \<not> deposit_pending st (1, 1))" by blast
  with wt have "(\<forall>t. pixel_mutexes st t \<noteq> Some 0) \<and> pixel_processed st (1, 0) \<noteq> 0
      \<and> \<not> deposit_pending st (1, 1)" by auto
  with r h have "\<exists>st rest. run before_last_read (mt_init (\<lambda>c. 100) (\<lambda>c. 7) 2 2 2) = Some st
         \<and> ops (threads st ! 0) = ReadWork (1, 1) # rest
         \<and> (\<forall>t. pixel_mutexes st t \<noteq> Some 0)
         \<and> pixel_processed st (1, 0) \<noteq> 0
         \<and> \<not> deposit_pending st (1, 1)" by blast
  moreover from t have "list_all lock_discipline (lock_trace [] (process_wavefront 1 2 2 2))"
    by blast
  moreover from t kt
  have "AddWork (1, 1) 1 \<in> set (process_wavefront (int (owner 2 (0, 0))) 2 2 2)" by blast
  ultimately show ?thesis using ne by blast
qed



text \<open>
  Claim C7. After a completed call of an engine on a grid of cells in \<open>0 .. 255\<close>, every
  cell of the output grid holds 0 or 255: for the serial engines, and for every complete
  execution of the wavefront engine with at least one worker.
\<close>

theorem output_is_bilevel:
  assumes "in_grid width height c"
  shows "dither_image_st inp out width height c \<in> {0, 255}
    \<and> dither_image inp out width height c \<in> {0, 255}
    \<and> (\<forall>n sched res. 0 < n \<longrightarrow> dither_image_mt inp out width height n sched = Some res
          \<longrightarrow> res c \<in> {0, 255})"
  using assms by (auto simp: dither_image_eq dest: st_bilevel mt_bilevel)

text \<open>
  Witness of C7: the column \<open>(100, 100)\<close>, an output grid that starts at 7 everywhere, two
  workers, and the complete execution in which worker 1 runs first.
\<close>

theorem output_is_bilevel_witness:
  "in_grid 1 2 (1, 0)
   \<and> dither_image_st (\<lambda>c. 100) (\<lambda>c. 7) 1 2 (1, 0) \<in> {0, 255}
   \<and> (\<exists>res. dither_image_mt (\<lambda>c. 100) (\<lambda>c. 7) 1 2 2 worker1_first = Some res
         \<and> res (1, 0) \<in> {0, 255})"
proof -
  have g: "in_grid 1 2 (1, 0)" by (simp add: in_grid_def)
  from run_worker1_first obtain res where
    r: "dither_image_mt (\<lambda>c. 100) (\<lambda>c. 7) 1 2 2 worker1_first = Some res"
    by (auto simp: dither_image_mt_def)
  note t = output_is_bilevel [OF g, of "\<lambda>c. 100" "\<lambda>c. 7"]
  from t have s: "dither_image_st (\<lambda>c. 100) (\<lambda>c. 7) 1 2 (1, 0) \<in> {0, 255}" by blast
  from t have "(0::int) < 2 \<longrightarrow>
      dither_image_mt (\<lambda>c. 100) (\<lambda>c. 7) 1 2 2 worker1_first = Some res \<longrightarrow>
      res (1, 0) \<in> {0, 255}" by blast
  with r have "res (1, 0) \<in> {0, 255}" by simp
  with r g s show ?thesis by blast
qed

text \<open>
  Claim C8, as stated: a call with \<open>height \<le> 0\<close> or \<open>width \<le> 0\<close> is rejected before
  any allocation of the working grid or of the synchronization cells. Neither engine
  tests its dimensions: called with width 0 and height 0, the serial engine asks for
  the row table of the working grid, and the wavefront engine for that table, for the
  three row tables of the synchronization cells and for the thread arrays.
\<close>

theorem malformed_dimensions_allocate:
  "st_allocs 0 0 = [Work_rows 0]
   \<and> mt_allocs 0 0 2 = [Work_rows 0, Mutex_rows 0, Cond_rows 0, Processed_rows 0,
                        Thread_handles 2, Thread_data 2]"
  by (simp add: mt_allocs_def st_allocs_def)

text \<open>
  Claim C8, amended. The engines do not validate their dimensions. A call with
  \<open>height \<le> 0\<close> or \<open>width \<le> 0\<close> still makes its allocation requests, the first of
  which is the row table of the working grid with \<open>height\<close> entries; it visits no
  coordinate, leaves the output grid as it was, and returns.
\<close>

theorem no_dimension_check:
  assumes "height \<le> 0 \<or> width \<le> 0"
  shows "hd (st_allocs width height) = Work_rows height
   \<and> hd (mt_allocs width height n) = Work_rows height
   \<and> raster width height = []
   \<and> process_wavefront i n width height = []
   \<and> dither_image_st inp out width height = out
   \<and> dither_image inp out width height = out
   \<and> dither_image_mt inp out width height n [] = Some out"
  using raster_empty [OF assms] process_wavefront_empty [OF assms, of i n]
    st_malformed [OF assms, of inp out] mt_malformed [OF assms, of inp out n]
  by (simp add: st_allocs_def mt_allocs_def dither_image_eq)

text \<open>Witness of C8: width 0 and height 3, two workers.\<close>

theorem no_dimension_check_witness:
  "((3::int) \<le> 0 \<or> (0::int) \<le> 0)
   \<and> mt_allocs 0 3 2 \<noteq> []
   \<and> hd (mt_allocs 0 3 2) = Work_rows 3
   \<and> dither_image_st (\<lambda>c. 100) (\<lambda>c. 7) 0 3 = (\<lambda>c. 7)
   \<and> dither_image_mt (\<lambda>c. 100) (\<lambda>c. 7) 0 3 2 [] = Some (\<lambda>c. 7)"
proof -
  have h: "(3::int) \<le> 0 \<or> (0::int) \<le> 0" by simp
  have "mt_allocs 0 3 2 \<noteq> []" by (simp add: mt_allocs_def)
  with no_dimension_check [OF h, of 2 0 "\<lambda>c. 100" "\<lambda>c. 7"] h show ?thesis by blast
qed

text \<open>
  Claim C9. Every engine leaves the input grid as it was: the accumulation runs on the
  working copy, which starts as the input on every cell of the grid, and no step
  of an engine writes the input.
\<close>

theorem input_unchanged:
  "input (st_run inp out width height) = inp
   \<and> input (ed_run inp out width height) = inp
   \<and> input (mt_init inp out width height n) = inp
   \<and> (\<forall>sched st. run sched (mt_init inp out width height n) = Some st \<longrightarrow> input st = inp)
   \<and> (\<forall>c. in_grid width height c \<longrightarrow> seed_work inp width height c = uint (inp c))"
  by (auto simp: ed_run_eq st_run_input mt_init_input seed_work_apply dest: run_input)

text \<open>Witness of C9: the column \<open>(100, 100)\<close> with two workers, worker 1 first.\<close>

theorem input_unchanged_witness:
  "(\<exists>st. run worker1_first (mt_init (\<lambda>c. 100) (\<lambda>c. 7) 1 2 2) = Some st
        \<and> input st = (\<lambda>c. 100))
   \<and> in_grid 1 2 (1, 0) \<and> seed_work (\<lambda>c. 100) 1 2 (1, 0) = uint (100 :: 8 word)"
proof -
  have g: "in_grid 1 2 (1, 0)" by (simp add: in_grid_def)
  from run_worker1_first obtain st where
    r: "run worker1_first (mt_init (\<lambda>c. 100) (\<lambda>c. 7) 1 2 2) = Some st" by blast
  from input_unchanged [of "\<lambda>c. 100" "\<lambda>c. 7" 1 2 2] r g show ?thesis by blast
qed

text \<open>
  Claim C10. On every input grid \<open>dither_image\<close> of \<open>error_diffusion.c\<close> and
  \<open>dither_image_st\<close> of \<open>thread.c\<close> produce the same output grid.
\<close>

theorem serial_engines_agree:
  "dither_image inp out width height = dither_image_st inp out width height"
  by (rule dither_image_eq)

end
